theory Spec2Isabelle
  imports Main "HOL-Library.Word"
begin

section \<open>Backoff schedule of the Vault token derivation (vault\_hook.go)\<close>

text \<open>
  Durations are Go's \<open>time.Duration\<close>, a signed 64-bit count of nanoseconds.  In
  \<open>(1 << (2 * uint64(attempts))) * vaultBackoffBaseline\<close> the untyped constant \<open>1\<close>
  takes the type of the other factor, so the shift and the product are computed in 64
  bits and wrap; a shift count of 64 or more yields 0.  The comparison with the limit is
  the signed one.
\<close>

type_synonym duration = "64 word"

definition second :: duration where
  "second = 1000000000"

definition vaultBackoffBaseline :: duration where
  "vaultBackoffBaseline = 5 * second"

definition vaultBackoffLimit :: duration where
  "vaultBackoffLimit = 3 * (60 * second)"

definition vaultBackoff :: "64 word \<Rightarrow> duration" where
  "vaultBackoff attempts =
     (let backoff = push_bit (unat (2 * attempts)) 1 * vaultBackoffBaseline
      in if vaultBackoffLimit <s backoff then vaultBackoffLimit else backoff)"

section \<open>The token future\<close>

text \<open>
  Channels made by \<open>make(chan struct{})\<close> live in a store: channel \<open>c\<close> is the
  \<open>c\<close>-th channel ever made, and the store records for each whether it has been closed.
  A handle returned by \<open>Wait\<close> is ready exactly when its channel is closed.  Closing a
  closed channel panics in Go; the store remembers that in \<open>double_close\<close>.
\<close>

type_synonym chan = nat

record chans =
  closed :: "bool list"
  double_close :: bool

definition no_chans :: chans where
  "no_chans = \<lparr>closed = [], double_close = False\<rparr>"

definition make_chan :: "chans \<Rightarrow> chan \<times> chans" where
  "make_chan h = (length (closed h), h\<lparr>closed := closed h @ [False]\<rparr>)"

definition close_chan :: "chan \<Rightarrow> chans \<Rightarrow> chans" where
  "close_chan c h =
     (if c < length (closed h) \<and> \<not> closed h ! c
      then h\<lparr>closed := (closed h)[c := True]\<rparr>
      else h\<lparr>double_close := True\<rparr>)"

definition ready :: "chans \<Rightarrow> chan \<Rightarrow> bool" where
  "ready h c = (c < length (closed h) \<and> closed h ! c)"

record tokenFuture =
  waiting :: "chan list"
  token :: string
  is_set :: bool

definition newTokenFuture :: tokenFuture where
  "newTokenFuture = \<lparr>waiting = [], token = [], is_set = False\<rparr>"

definition Wait :: "tokenFuture \<Rightarrow> chans \<Rightarrow> chan \<times> tokenFuture \<times> chans" where
  "Wait f h =
     (let (c, h1) = make_chan h
      in if is_set f then (c, f, close_chan c h1)
         else (c, f\<lparr>waiting := waiting f @ [c]\<rparr>, h1))"

definition Set :: "string \<Rightarrow> tokenFuture \<Rightarrow> chans \<Rightarrow> tokenFuture \<times> chans" where
  "Set t f h =
     (f\<lparr>is_set := True, token := t, waiting := []\<rparr>, fold close_chan (waiting f) h)"

definition Clear :: "tokenFuture \<Rightarrow> tokenFuture" where
  "Clear f = f\<lparr>token := [], is_set := False\<rparr>"

definition Get :: "tokenFuture \<Rightarrow> string" where
  "Get f = token f"

text \<open>Sequences of operations on one future, as its callers interleave them.\<close>

datatype fop = OpWait | OpSet string | OpClear | OpGet

fun apply_fop :: "fop \<Rightarrow> tokenFuture \<times> chans \<Rightarrow> tokenFuture \<times> chans" where
  "apply_fop OpWait (f, h) = snd (Wait f h)"
| "apply_fop (OpSet t) (f, h) = Set t f h"
| "apply_fop OpClear (f, h) = (Clear f, h)"
| "apply_fop OpGet (f, h) = (f, h)"

definition exec_fops :: "fop list \<Rightarrow> tokenFuture \<times> chans \<Rightarrow> tokenFuture \<times> chans" where
  "exec_fops ops s = fold apply_fop ops s"

fun is_OpSet :: "fop \<Rightarrow> bool" where
  "is_OpSet (OpSet t) = True"
| "is_OpSet _ = False"

fun is_OpClear :: "fop \<Rightarrow> bool" where
  "is_OpClear OpClear = True"
| "is_OpClear _ = False"

text \<open>The channels a future still holds are open, allocated and pairwise distinct.\<close>

definition future_inv :: "tokenFuture \<times> chans \<Rightarrow> bool" where
  "future_inv s =
     (case s of (f, h) \<Rightarrow>
        distinct (waiting f) \<and> \<not> double_close h \<and>
        list_all (\<lambda>c. c < length (closed h) \<and> \<not> closed h ! c) (waiting f))"

section \<open>The token supervisor (vaultHook.run)\<close>

text \<open>
  The hook talks to the Vault client, the task lifecycle, the token updater, the disk and
  its context.  Each of them is scripted: a queue holds the answers it will give, in
  order, and a call that finds its queue empty never returns.  Every call the hook makes
  is appended to \<open>trace\<close>, so that what the hook did, and in which order, can be read
  off the final world.  Log lines are not modelled.
\<close>

datatype change_mode =
    VaultChangeModeSignal
  | VaultChangeModeRestart
  | VaultChangeModeNoop
  | VaultChangeModeOther string

text \<open>
  Modelled from the spec: \<open>structs.IsServerSide\<close> and \<open>structs.IsRecoverable\<close> are not
  part of the source at hand.  The spec says that derivation errors carry two orthogonal
  classifier bits, queried by these two functions; the error value therefore carries its
  text (what \<open>%v\<close> prints) and the two bits.
\<close>

record vault_error =
  err_text :: string
  server_side :: bool
  recoverable :: bool

definition IsServerSide :: "vault_error \<Rightarrow> bool" where
  "IsServerSide err = server_side err"

definition IsRecoverable :: "vault_error \<Rightarrow> bool" where
  "IsRecoverable err = recoverable err"

type_synonym derive_resp = "vault_error + (string \<times> string) list"

text \<open>Indexing a Go map with a key it lacks yields the zero value, the empty string.\<close>

definition map_index :: "(string \<times> string) list \<Rightarrow> string \<Rightarrow> string" where
  "map_index m k = (case map_of m k of None \<Rightarrow> [] | Some v \<Rightarrow> v)"

datatype backoff_select = BackoffCtxDone | TimerFired

datatype renew_select = RenewErr string | RenewCtxDone

datatype action =
    DeriveToken string "string list"
  | Kill string string bool
  | Signal string string nat
  | Restart string string bool
  | WriteFile string string
  | RenewToken string nat
  | StopRenewToken string
  | UpdatedVaultToken string
  | After duration
  | FutureSet string
  | FutureClear

record vaultHook =
  changeMode :: change_mode
  changeSignal :: string
  signals_Parse :: "string \<Rightarrow> string + nat"
  tokenPath :: string
  alloc :: string
  taskName :: string

record world =
  future :: tokenFuture
  chs :: chans
  trace :: "action list"
  derive_q :: "derive_resp list"
  backoff_q :: "backoff_select list"
  write_q :: "string option list"
  renew_q :: "string option list"
  signal_q :: "string option list"
  renewal_q :: "renew_select list"

definition emit :: "action \<Rightarrow> world \<Rightarrow> world" where
  "emit a w = w\<lparr>trace := trace w @ [a]\<rparr>"

text \<open>\<open>stopRenewal\<close>: the error of \<open>StopRenewToken\<close> is only logged.\<close>

definition stopRenewal :: "world \<Rightarrow> world" where
  "stopRenewal w = emit (StopRenewToken (Get (future w))) w"

definition future_Clear :: "world \<Rightarrow> world" where
  "future_Clear w = emit FutureClear (w\<lparr>future := Clear (future w)\<rparr>)"

definition future_Set :: "string \<Rightarrow> world \<Rightarrow> world" where
  "future_Set t w =
     (let (f, h) = Set t (future w) (chs w)
      in emit (FutureSet t) (w\<lparr>future := f, chs := h\<rparr>))"

subsection \<open>deriveVaultToken\<close>

datatype derived = Derived string bool | DeriveBlocked

fun derive_loop ::
  "vaultHook \<Rightarrow> 64 word \<Rightarrow> derive_resp list \<Rightarrow> backoff_select list \<Rightarrow> action list \<Rightarrow>
     derived \<times> derive_resp list \<times> backoff_select list \<times> action list" where
  "derive_loop h attempts [] bq tr =
     (DeriveBlocked, [], bq, tr @ [DeriveToken (alloc h) [taskName h]])"
| "derive_loop h attempts (r # dq) bq tr =
     (let tr1 = tr @ [DeriveToken (alloc h) [taskName h]]
      in case r of
           Inr tokens \<Rightarrow> (Derived (map_index tokens (taskName h)) False, dq, bq, tr1)
         | Inl err \<Rightarrow>
             if IsServerSide err
             then (Derived [] True, dq, bq,
                   tr1 @ [Kill ''vault'' (''server error deriving vault token: '' @ err_text err) True])
             else if \<not> IsRecoverable err
             then (Derived [] True, dq, bq,
                   tr1 @ [Kill ''vault'' (''failed to derive token: '' @ err_text err) True])
             else
               let backoff = vaultBackoff attempts;
                   tr2 = tr1 @ [After backoff]
               in case bq of
                    [] \<Rightarrow> (DeriveBlocked, dq, [], tr2)
                  | BackoffCtxDone # bq' \<Rightarrow> (Derived [] True, dq, bq', tr2)
                  | TimerFired # bq' \<Rightarrow> derive_loop h (attempts + 1) dq bq' tr2)"

definition deriveVaultToken :: "vaultHook \<Rightarrow> world \<Rightarrow> derived \<times> world" where
  "deriveVaultToken h w =
     (case derive_loop h 0 (derive_q w) (backoff_q w) (trace w) of
        (r, dq, bq, tr) \<Rightarrow> (r, w\<lparr>derive_q := dq, backoff_q := bq, trace := tr\<rparr>))"

subsection \<open>writeToken\<close>

datatype 'a answer = Answer 'a | NoAnswer

definition pop_write :: "world \<Rightarrow> string option answer \<times> world" where
  "pop_write w =
     (case write_q w of [] \<Rightarrow> (NoAnswer, w) | r # q \<Rightarrow> (Answer r, w\<lparr>write_q := q\<rparr>))"

definition writeToken :: "vaultHook \<Rightarrow> string \<Rightarrow> world \<Rightarrow> string option answer \<times> world" where
  "writeToken h t w =
     (case pop_write (emit (WriteFile (tokenPath h) t) w) of
        (Answer (Some e), w') \<Rightarrow> (Answer (Some (''failed to write vault token: '' @ e)), w')
      | (Answer None, w') \<Rightarrow> (Answer None, w')
      | (NoAnswer, w') \<Rightarrow> (NoAnswer, w'))"

subsection \<open>One pass of the loop of run\<close>

datatype step = Continue string bool world | Exit world | Block world

text \<open>Lines 197--215: derive and persist a token unless one is at hand.\<close>

datatype acquired = Token string world | AcquireExit world | AcquireBlock world

definition acquire :: "vaultHook \<Rightarrow> string \<Rightarrow> world \<Rightarrow> acquired" where
  "acquire h t w =
     (if t = [] then
        (case deriveVaultToken h w of
           (DeriveBlocked, w1) \<Rightarrow> AcquireBlock w1
         | (Derived t1 exit, w1) \<Rightarrow>
             if exit then AcquireExit w1
             else (case writeToken h t1 w1 of
                     (NoAnswer, w2) \<Rightarrow> AcquireBlock w2
                   | (Answer (Some e), w2) \<Rightarrow>
                       AcquireExit (emit (Kill ''vault'' ''failed to write Vault token to disk'' True) w2)
                   | (Answer None, w2) \<Rightarrow> Token t1 w2))
      else Token t w)"

text \<open>Lines 230--259: apply the change mode once a new token is being renewed.\<close>

definition react :: "vaultHook \<Rightarrow> string \<Rightarrow> world \<Rightarrow> step" where
  "react h t w =
     (let finish = (\<lambda>w'. Continue t False (emit (UpdatedVaultToken t) w'))
      in case changeMode h of
           VaultChangeModeSignal \<Rightarrow>
             (case signals_Parse h (changeSignal h) of
                Inl e \<Rightarrow> Exit (emit (Kill ''vault'' (''failed to parse signal: '' @ e) True) w)
              | Inr s \<Rightarrow>
                  let w1 = emit (Signal ''vault'' ''new Vault token acquired'' s) w
                  in case signal_q w1 of
                       [] \<Rightarrow> Block w1
                     | Some e # q \<Rightarrow>
                         Exit (emit (Kill ''vault'' (''failed to send signal: '' @ e) True)
                                 (w1\<lparr>signal_q := q\<rparr>))
                     | None # q \<Rightarrow> finish (w1\<lparr>signal_q := q\<rparr>))
         | VaultChangeModeRestart \<Rightarrow>
             finish (emit (Restart ''vault'' ''new Vault token acquired'' False) w)
         | VaultChangeModeNoop \<Rightarrow> finish w
         | VaultChangeModeOther m \<Rightarrow> finish w)"

text \<open>Lines 261--276: wait for a renewal error or for cancellation.\<close>

definition watch :: "vaultHook \<Rightarrow> bool \<Rightarrow> world \<Rightarrow> step" where
  "watch h updatedToken w =
     (case renewal_q w of
        [] \<Rightarrow> Block w
      | RenewErr e # q \<Rightarrow>
          Continue [] (if changeMode h \<noteq> VaultChangeModeNoop then True else updatedToken)
            (stopRenewal (w\<lparr>renewal_q := q\<rparr>))
      | RenewCtxDone # q \<Rightarrow> Exit (stopRenewal (w\<lparr>renewal_q := q\<rparr>)))"

text \<open>Lines 217--276: start the renewal, publish the token, react, watch.\<close>

definition renew :: "vaultHook \<Rightarrow> string \<Rightarrow> bool \<Rightarrow> world \<Rightarrow> step" where
  "renew h t updatedToken w =
     (let w1 = emit (RenewToken t 30) w
      in case renew_q w1 of
           [] \<Rightarrow> Block w1
         | Some e # q \<Rightarrow> Continue [] updatedToken (w1\<lparr>renew_q := q\<rparr>)
         | None # q \<Rightarrow>
             let w2 = future_Set t (w1\<lparr>renew_q := q\<rparr>)
             in if updatedToken
                then (case react h t w2 of
                        Continue t' u w3 \<Rightarrow> watch h u w3
                      | Exit w3 \<Rightarrow> Exit w3
                      | Block w3 \<Rightarrow> Block w3)
                else watch h updatedToken w2)"

definition loop_body :: "vaultHook \<Rightarrow> string \<Rightarrow> bool \<Rightarrow> world \<Rightarrow> step" where
  "loop_body h t updatedToken w =
     (case acquire h t (future_Clear w) of
        Token t1 w1 \<Rightarrow> renew h t1 updatedToken w1
      | AcquireExit w1 \<Rightarrow> Exit w1
      | AcquireBlock w1 \<Rightarrow> Block w1)"

subsection \<open>run\<close>

text \<open>
  \<open>ctx_polls\<close> holds the answers of the non-blocking check of \<open>h.ctx.Done()\<close> at the head
  of the loop, one per pass.  \<open>Exited\<close>: run returned.  \<open>Pending\<close>: the script ended with
  the supervisor still alive.
\<close>

datatype outcome = Exited | Pending

fun run_loop :: "vaultHook \<Rightarrow> bool list \<Rightarrow> string \<Rightarrow> bool \<Rightarrow> world \<Rightarrow> outcome \<times> world" where
  "run_loop h [] t updatedToken w = (Pending, w)"
| "run_loop h (done # ctx_polls) t updatedToken w =
     (if done then (Exited, stopRenewal w)
      else case loop_body h t updatedToken w of
             Continue t' u w' \<Rightarrow> run_loop h ctx_polls t' u w'
           | Exit w' \<Rightarrow> (Exited, w')
           | Block w' \<Rightarrow> (Pending, w'))"

definition run :: "vaultHook \<Rightarrow> bool list \<Rightarrow> string \<Rightarrow> world \<Rightarrow> outcome \<times> world" where
  "run h ctx_polls t w = run_loop h ctx_polls t False w"

text \<open>The world in which a hook made by \<open>newVaultHook\<close> starts, given the scripts.\<close>

definition new_world ::
  "derive_resp list \<Rightarrow> backoff_select list \<Rightarrow> string option list \<Rightarrow> string option list \<Rightarrow>
   string option list \<Rightarrow> renew_select list \<Rightarrow> world" where
  "new_world dq bq wq rq sq nq =
     \<lparr>future = newTokenFuture, chs = no_chans, trace = [], derive_q = dq, backoff_q = bq,
      write_q = wq, renew_q = rq, signal_q = sq, renewal_q = nq\<rparr>"

text \<open>A channel a future holds for a waiter that is still blocked.\<close>

definition pending :: "chan \<Rightarrow> tokenFuture \<times> chans \<Rightarrow> bool" where
  "pending c s =
     (c \<in> set (waiting (fst s)) \<and> c < length (closed (snd s)) \<and>
      \<not> closed (snd s) ! c)"


subsection \<open>Reading a run\<close>

definition step_world :: "step \<Rightarrow> world" where
  "step_world s = (case s of Continue t u w \<Rightarrow> w | Exit w \<Rightarrow> w | Block w \<Rightarrow> w)"

definition acquired_world :: "acquired \<Rightarrow> world" where
  "acquired_world a = (case a of Token t w \<Rightarrow> w | AcquireExit w \<Rightarrow> w | AcquireBlock w \<Rightarrow> w)"

text \<open>The calls made between world \<open>w\<close> and a later world \<open>w'\<close>.\<close>

definition since :: "world \<Rightarrow> world \<Rightarrow> action list" where
  "since w w' = drop (length (trace w)) (trace w')"

text \<open>A derivation that succeeded is a \<open>DeriveToken\<close> call followed by the write of its token.\<close>

fun is_WriteFile :: "action \<Rightarrow> bool" where
  "is_WriteFile (WriteFile p t) = True"
| "is_WriteFile _ = False"

text \<open>
  What the change-mode block of \<open>run\<close> (lines 230--259) can do to the outside: signal or
  restart the task, kill it when the signal fails, and hand the token to the updater.
\<close>

fun reactor_action :: "action \<Rightarrow> bool" where
  "reactor_action (Signal src reason s) = True"
| "reactor_action (Restart src reason failure) = True"
| "reactor_action (UpdatedVaultToken t) = True"
| "reactor_action (Kill src reason failure) =
     (take 24 reason = ''failed to parse signal: '' \<or> take 23 reason = ''failed to send signal: '')"
| "reactor_action _ = False"

fun is_UpdatedVaultToken :: "action \<Rightarrow> bool" where
  "is_UpdatedVaultToken (UpdatedVaultToken t) = True"
| "is_UpdatedVaultToken _ = False"

fun is_After :: "action \<Rightarrow> bool" where
  "is_After (After d) = True"
| "is_After _ = False"

fun is_RenewToken :: "action \<Rightarrow> bool" where
  "is_RenewToken (RenewToken t i) = True"
| "is_RenewToken _ = False"

fun is_FutureSet :: "action \<Rightarrow> bool" where
  "is_FutureSet (FutureSet t) = True"
| "is_FutureSet _ = False"

fun is_StopRenewToken :: "action \<Rightarrow> bool" where
  "is_StopRenewToken (StopRenewToken t) = True"
| "is_StopRenewToken _ = False"

text \<open>The calls \<open>deriveVaultToken\<close> makes: to the client, to the timer, and a kill of its own.\<close>

fun derive_action :: "action \<Rightarrow> bool" where
  "derive_action (DeriveToken a ts) = True"
| "derive_action (After d) = True"
| "derive_action (Kill s r f) = (\<not> reactor_action (Kill s r f))"
| "derive_action _ = False"

text \<open>
  The calls of \<open>k\<close> failed attempts of one \<open>deriveVaultToken\<close> run, each followed by its
  wait: the \<open>i\<close>-th wait is \<open>vaultBackoff i\<close>, counted from the start of the run.
\<close>

definition retry_calls :: "vaultHook \<Rightarrow> 64 word \<Rightarrow> nat \<Rightarrow> action list" where
  "retry_calls h n k =
     concat (map (\<lambda>i. [DeriveToken (alloc h) [taskName h], After (vaultBackoff (n + of_nat i))])
       [0..<k])"

definition retryable :: "vault_error \<Rightarrow> bool" where
  "retryable err = (\<not> IsServerSide err \<and> IsRecoverable err)"

text \<open>
  How many derivations must succeed before the change-mode block can run: one if no
  token is at hand, and one more, after a failed renewal, if no rotation is pending.
\<close>

definition derivations_owed :: "string \<Rightarrow> bool \<Rightarrow> nat" where
  "derivations_owed t updatedToken =
     (if updatedToken then 0 else 1) + (if t = [] then 1 else 0)"

text \<open>A hook and scripts for concrete runs: task \<open>t\<close> of allocation \<open>a1\<close>.\<close>

definition test_hook :: "change_mode \<Rightarrow> string \<Rightarrow> vaultHook" where
  "test_hook m sig =
     \<lparr>changeMode = m, changeSignal = sig,
      signals_Parse = (\<lambda>s. if s = ''SIGHUP'' then Inr 1 else Inl (''invalid signal: '' @ s)),
      tokenPath = ''/secrets/vault_token'', alloc = ''a1'', taskName = ''t''\<rparr>"

section \<open>The script check (consul script executor)\<close>

datatype health = HealthPassing | HealthWarning | HealthCritical

text \<open>
  Modelled from the spec: the function that runs a script check and reports its outcome
  (\<open>scriptCheck.run\<close>) is not part of the source at hand; only its test is.  The spec
  (4.G, step 3) classifies the outcome of one execution: an error of the executor,
  including a termination by timeout, gives status critical and the error text as
  output; otherwise exit code 0 gives passing, exit code 1 warning and an exit code of
  2 or more critical, and the output is the raw standard output.  Exit codes are
  natural numbers, over which the three cases of the spec are exhaustive.  The pair
  returned is what is handed to \<open>UpdateTTL\<close>: output and status.
\<close>

definition classify :: "string \<Rightarrow> nat \<Rightarrow> string option \<Rightarrow> string \<times> health" where
  "classify stdout code err =
     (case err of
        Some e \<Rightarrow> (e, HealthCritical)
      | None \<Rightarrow>
          (stdout,
           if code = 0 then HealthPassing
           else if code = 1 then HealthWarning
           else HealthCritical))"

text \<open>
  The table of \<open>TestConsulScript_Exec_Codes\<close>: the exit code and error the fake executor
  returns, and the status the test expects.
\<close>

definition TestConsulScript_Exec_Codes :: "(nat \<times> string option \<times> health) list" where
  "TestConsulScript_Exec_Codes =
     [(0, None, HealthPassing),
      (1, None, HealthWarning),
      (2, None, HealthCritical),
      (9000, None, HealthCritical),
      (0, Some ''test error'', HealthCritical),
      (1, Some ''test error'', HealthCritical),
      (2, Some ''test error'', HealthCritical),
      (9000, Some ''test error'', HealthCritical)]"

text \<open>
  What the test asserts of one row: the status is the expected one, and the output is
  the text of the error if there is one and what the executor printed otherwise.
\<close>

definition row_passes :: "string \<Rightarrow> nat \<times> string option \<times> health \<Rightarrow> bool" where
  "row_passes stdout row =
     (case row of (code, err, expected) \<Rightarrow>
        snd (classify stdout code err) = expected \<and>
        fst (classify stdout code err) = (case err of Some e \<Rightarrow> e | None \<Rightarrow> stdout))"

section \<open>Properties of the backoff schedule\<close>

lemma vaultBackoff_le_limit: "vaultBackoff n \<le>s vaultBackoffLimit"
  by (simp add: vaultBackoff_def Let_def word_sless_alt word_sle_eq)

lemma vaultBackoff_first: "vaultBackoff 0 = 5 * second"
  by (simp add: vaultBackoff_def Let_def vaultBackoffBaseline_def vaultBackoffLimit_def
      second_def word_sless_alt)

lemma vaultBackoff_small:
  assumes "k \<le> 16"
  shows "sint (vaultBackoff (of_nat k)) = min (5000000000 * 4 ^ k) 180000000000"
proof -
  from assms have "k = 0 \<or> k = 1 \<or> k = 2 \<or> k = 3 \<or> k = 4 \<or> k = 5 \<or> k = 6 \<or> k = 7 \<or> k = 8
     \<or> k = 9 \<or> k = 10 \<or> k = 11 \<or> k = 12 \<or> k = 13 \<or> k = 14 \<or> k = 15 \<or> k = 16"
    by arith
  then show ?thesis
    by (elim disjE; simp add: vaultBackoff_def Let_def vaultBackoffBaseline_def
        vaultBackoffLimit_def second_def word_sless_alt)
qed

lemma vaultBackoff_formula_upto_16:
  "unat n \<le> 16 \<Longrightarrow> sint (vaultBackoff n) = min (5000000000 * 4 ^ unat n) 180000000000"
  using vaultBackoff_small [of "unat n"] by simp

text \<open>
  C4.  The schedule is meant to be \<open>min (5 s * 2 ^ (2 * n)) (3 min)\<close>.  The product is
  computed in 64 bits, and at the attempt of index 17 it is \<open>5 * 10 ^ 9 * 2 ^ 34\<close>, which
  wraps to a negative duration: the comparison with the limit then leaves it as it is,
  and the delay handed to \<open>time.After\<close> is negative instead of three minutes.
\<close>

theorem vaultBackoff_attempt_17:
  "sint (vaultBackoff 17) = - 6334374448547758080 \<and>
   sint (vaultBackoff 17) \<noteq> min (5000000000 * 4 ^ 17) 180000000000"
  by (simp add: vaultBackoff_def Let_def vaultBackoffBaseline_def vaultBackoffLimit_def
      second_def word_sless_alt)

section \<open>Properties of the token future\<close>

lemma ready_close_mono: "ready h c \<Longrightarrow> ready (close_chan d h) c"
  by (auto simp: ready_def close_chan_def nth_list_update)

lemma ready_close_self: "c < length (closed h) \<Longrightarrow> ready (close_chan c h) c"
  by (auto simp: ready_def close_chan_def)

lemma length_close [simp]: "length (closed (close_chan d h)) = length (closed h)"
  by (simp add: close_chan_def)

lemma ready_fold_mono: "ready h c \<Longrightarrow> ready (fold close_chan ws h) c"
  by (induction ws arbitrary: h) (simp_all add: ready_close_mono)

lemma ready_fold_member:
  "c \<in> set ws \<Longrightarrow> c < length (closed h) \<Longrightarrow> ready (fold close_chan ws h) c"
proof (induction ws arbitrary: h)
  case Nil
  then show ?case by simp
next
  case (Cons w ws)
  show ?case
  proof (cases "c = w")
    case True
    with Cons.prems show ?thesis by (simp add: ready_fold_mono ready_close_self)
  next
    case False
    with Cons show ?thesis by simp
  qed
qed

lemma open_close_other:
  "c \<noteq> d \<Longrightarrow> closed (close_chan d h) ! c = closed h ! c"
  by (simp add: close_chan_def)

lemma Wait_set_ready: "is_set f \<Longrightarrow> Wait f h = (c, f', h') \<Longrightarrow> ready h' c"
  by (auto simp: Wait_def make_chan_def ready_def close_chan_def nth_append)

lemma Wait_unset_blocks:
  "\<not> is_set f \<Longrightarrow> Wait f h = (c, f', h') \<Longrightarrow>
     \<not> ready h' c \<and> c \<in> set (waiting f') \<and> c < length (closed h')"
  by (auto simp: Wait_def make_chan_def ready_def nth_append)

lemma pending_step: "\<not> is_OpSet op \<Longrightarrow> pending c s \<Longrightarrow> pending c (apply_fop op s)"
  by (cases op; cases s)
     (auto simp: pending_def Wait_def make_chan_def close_chan_def Clear_def nth_append Let_def)

lemma pending_exec: "\<not> list_ex is_OpSet ops \<Longrightarrow> pending c s \<Longrightarrow> pending c (exec_fops ops s)"
  unfolding exec_fops_def by (induction ops arbitrary: s) (simp_all add: pending_step)

lemma ready_make: "ready h c \<Longrightarrow> ready (snd (make_chan h)) c"
  by (simp add: ready_def make_chan_def nth_append)

lemma ready_Wait: "ready h c \<Longrightarrow> ready (snd (snd (Wait f h))) c"
  using ready_make [of h c]
  by (simp add: Wait_def split_beta ready_close_mono)

lemma ready_Set: "ready h c \<Longrightarrow> ready (snd (Set t f h)) c"
  by (simp add: Set_def ready_fold_mono)

lemma ready_step: "ready (snd s) c \<Longrightarrow> ready (snd (apply_fop op s)) c"
  by (cases op; cases s) (simp_all add: ready_Wait ready_Set)

lemma ready_exec: "ready (snd s) c \<Longrightarrow> ready (snd (exec_fops ops s)) c"
  unfolding exec_fops_def by (induction ops arbitrary: s) (simp_all add: ready_step)

lemma is_set_step: "\<not> is_OpClear op \<Longrightarrow> is_set (fst s) \<Longrightarrow> is_set (fst (apply_fop op s))"
  by (cases op; cases s) (auto simp: Wait_def make_chan_def Set_def Let_def)

lemma is_set_exec: "\<not> list_ex is_OpClear ops \<Longrightarrow> is_set (fst s) \<Longrightarrow> is_set (fst (exec_fops ops s))"
  unfolding exec_fops_def by (induction ops arbitrary: s) (simp_all add: is_set_step)

lemma token_step: "\<not> is_OpClear op \<Longrightarrow> \<not> is_OpSet op \<Longrightarrow> token (fst (apply_fop op s)) = token (fst s)"
  by (cases op; cases s) (auto simp: Wait_def make_chan_def Let_def)

lemma token_exec:
  "\<not> list_ex is_OpClear ops \<Longrightarrow> \<not> list_ex is_OpSet ops \<Longrightarrow> token (fst (exec_fops ops s)) = token (fst s)"
  unfolding exec_fops_def by (induction ops arbitrary: s) (simp_all add: token_step)

lemma token_unset_step:
  "\<not> is_OpSet op \<Longrightarrow> token (fst s) = [] \<Longrightarrow> token (fst (apply_fop op s)) = []"
  by (cases op; cases s) (auto simp: Wait_def make_chan_def Let_def Clear_def)

lemma token_unset_exec:
  "\<not> list_ex is_OpSet ops \<Longrightarrow> token (fst s) = [] \<Longrightarrow> token (fst (exec_fops ops s)) = []"
  unfolding exec_fops_def by (induction ops arbitrary: s) (simp_all add: token_unset_step)

lemma Set_releases: "pending c (f, h) \<Longrightarrow> ready (snd (Set t f h)) c"
  by (simp add: pending_def Set_def ready_fold_member)

lemma close_open_no_panic:
  "c < length (closed h) \<Longrightarrow> \<not> closed h ! c \<Longrightarrow> double_close (close_chan c h) = double_close h"
  by (simp add: close_chan_def)

lemma fold_close_no_panic:
  "distinct ws \<Longrightarrow> \<not> double_close h \<Longrightarrow>
   \<forall>c \<in> set ws. c < length (closed h) \<and> \<not> closed h ! c \<Longrightarrow>
   \<not> double_close (fold close_chan ws h)"
proof (induction ws arbitrary: h)
  case Nil
  then show ?case by simp
next
  case (Cons w ws)
  have "\<not> double_close (close_chan w h)"
    using Cons.prems by (simp add: close_open_no_panic)
  moreover have "\<forall>c \<in> set ws. c < length (closed (close_chan w h)) \<and> \<not> closed (close_chan w h) ! c"
  proof
    fix c assume c: "c \<in> set ws"
    with Cons.prems have "c \<noteq> w" by auto
    then show "c < length (closed (close_chan w h)) \<and> \<not> closed (close_chan w h) ! c"
      using Cons.prems c by (simp add: open_close_other)
  qed
  ultimately show ?case using Cons.IH [of "close_chan w h"] Cons.prems by simp
qed

lemma future_inv_Set: "future_inv (f, h) \<Longrightarrow> future_inv (Set t f h)"
  by (simp add: future_inv_def Set_def list_all_iff fold_close_no_panic)

lemma future_inv_Wait: "future_inv (f, h) \<Longrightarrow> future_inv (snd (Wait f h))"
  by (auto simp: future_inv_def Wait_def make_chan_def close_chan_def list_all_iff nth_append)

lemma future_inv_step: "future_inv s \<Longrightarrow> future_inv (apply_fop op s)"
  by (cases op; cases s) (simp_all add: future_inv_Set future_inv_Wait, simp add: future_inv_def Clear_def)

lemma future_inv_exec: "future_inv s \<Longrightarrow> future_inv (exec_fops ops s)"
  unfolding exec_fops_def by (induction ops arbitrary: s) (simp_all add: future_inv_step)

lemma future_inv_new: "future_inv (newTokenFuture, no_chans)"
  by (simp add: future_inv_def newTokenFuture_def no_chans_def)

text \<open>
  C8.  The one-shot contract of the token future.  After \<open>Set t\<close>, and as long as no
  \<open>Clear\<close> follows, \<open>Wait\<close> returns a handle that is ready at once.  After \<open>Clear\<close>
  the future is not set; a handle then returned by \<open>Wait\<close> is not ready, stays so
  as long as no \<open>Set\<close> happens, and is ready after the next \<open>Set\<close>.  A handle that is
  ready stays ready across \<open>Clear\<close> and whatever follows.  \<open>Get\<close> returns the value of
  the last \<open>Set\<close>, and the empty string when the future was never set or was cleared since.
\<close>

theorem tokenFuture_one_shot:
  "(\<not> list_ex is_OpClear ops \<longrightarrow>
      (case exec_fops ops (Set t f h) of (f1, h1) \<Rightarrow>
         case Wait f1 h1 of (c, f2, h2) \<Rightarrow> ready h2 c)) \<and>
   \<not> is_set (Clear f) \<and>
   (case Wait (Clear f) h of (c, f2, h2) \<Rightarrow>
      \<not> ready h2 c \<and>
      (\<not> list_ex is_OpSet ops \<longrightarrow>
         \<not> ready (snd (exec_fops ops (f2, h2))) c \<and>
         ready (snd (exec_fops (ops @ [OpSet t]) (f2, h2))) c)) \<and>
   (ready h d \<longrightarrow> ready (snd (exec_fops (OpClear # ops) (f, h))) d) \<and>
   Get (fst (Set t f h)) = t \<and>
   (\<not> list_ex is_OpSet ops \<and> \<not> list_ex is_OpClear ops \<longrightarrow>
      Get (fst (exec_fops ops (Set t f h))) = t) \<and>
   (\<not> list_ex is_OpSet ops \<longrightarrow> Get (fst (exec_fops ops (newTokenFuture, h))) = []) \<and>
   (\<not> list_ex is_OpSet ops \<longrightarrow> Get (fst (exec_fops ops (Clear f, h))) = [])"
proof (intro conjI impI)
  assume nc: "\<not> list_ex is_OpClear ops"
  obtain f1 h1 where e: "exec_fops ops (Set t f h) = (f1, h1)" by (cases "exec_fops ops (Set t f h)")
  obtain c f2 h2 where w: "Wait f1 h1 = (c, f2, h2)" by (cases "Wait f1 h1")
  have "is_set (fst (Set t f h))" by (simp add: Set_def)
  with nc have "is_set (fst (exec_fops ops (Set t f h)))" by (rule is_set_exec)
  with e have "is_set f1" by simp
  then have "ready h2 c" using w by (rule Wait_set_ready)
  with e w show "case exec_fops ops (Set t f h) of (f1, h1) \<Rightarrow>
         case Wait f1 h1 of (c, f2, h2) \<Rightarrow> ready h2 c" by simp
next
  show "\<not> is_set (Clear f)" by (simp add: Clear_def)
next
  obtain c f2 h2 where w: "Wait (Clear f) h = (c, f2, h2)" by (cases "Wait (Clear f) h")
  have u: "\<not> is_set (Clear f)" by (simp add: Clear_def)
  from Wait_unset_blocks [OF u w]
  have nr: "\<not> ready h2 c" and p: "pending c (f2, h2)"
    by (simp_all add: pending_def ready_def)
  have "\<not> ready (snd (exec_fops ops (f2, h2))) c \<and>
        ready (snd (exec_fops (ops @ [OpSet t]) (f2, h2))) c"
    if ns: "\<not> list_ex is_OpSet ops"
  proof -
    from ns p have p': "pending c (exec_fops ops (f2, h2))" by (rule pending_exec)
    then have "\<not> ready (snd (exec_fops ops (f2, h2))) c" by (simp add: pending_def ready_def)
    moreover have "ready (snd (exec_fops (ops @ [OpSet t]) (f2, h2))) c"
      using p' Set_releases [of c "fst (exec_fops ops (f2, h2))" "snd (exec_fops ops (f2, h2))" t]
      by (cases "fold apply_fop ops (f2, h2)") (simp add: exec_fops_def)
    ultimately show ?thesis by simp
  qed
  with w nr show "case Wait (Clear f) h of (c, f2, h2) \<Rightarrow>
      \<not> ready h2 c \<and>
      (\<not> list_ex is_OpSet ops \<longrightarrow>
         \<not> ready (snd (exec_fops ops (f2, h2))) c \<and>
         ready (snd (exec_fops (ops @ [OpSet t]) (f2, h2))) c)" by simp
next
  assume "ready h d"
  then show "ready (snd (exec_fops (OpClear # ops) (f, h))) d"
    using ready_exec [of "(f, h)" d "OpClear # ops"] by simp
next
  show "Get (fst (Set t f h)) = t" by (simp add: Get_def Set_def)
next
  assume "\<not> list_ex is_OpSet ops \<and> \<not> list_ex is_OpClear ops"
  then show "Get (fst (exec_fops ops (Set t f h))) = t"
    using token_exec [of ops "Set t f h"] by (simp add: Get_def Set_def)
next
  assume "\<not> list_ex is_OpSet ops"
  then show "Get (fst (exec_fops ops (newTokenFuture, h))) = []"
    using token_unset_exec [of ops "(newTokenFuture, h)"] by (simp add: Get_def newTokenFuture_def)
next
  assume "\<not> list_ex is_OpSet ops"
  then show "Get (fst (exec_fops ops (Clear f, h))) = []"
    using token_unset_exec [of ops "(Clear f, h)"] by (simp add: Get_def Clear_def)
qed

theorem tokenFuture_one_shot_witness:
  "\<not> list_ex is_OpClear [OpWait, OpGet] \<and> \<not> list_ex is_OpSet [OpWait, OpGet] \<and>
   ready \<lparr>closed = [True], double_close = False\<rparr> 0 \<and>
   (case exec_fops [OpWait, OpGet] (Set ''tok-A'' newTokenFuture \<lparr>closed = [True], double_close = False\<rparr>) of
      (f1, h1) \<Rightarrow> case Wait f1 h1 of (c, f2, h2) \<Rightarrow> ready h2 c) \<and>
   (case Wait (Clear newTokenFuture) \<lparr>closed = [True], double_close = False\<rparr> of (c, f2, h2) \<Rightarrow>
      \<not> ready h2 c \<and>
      \<not> ready (snd (exec_fops [OpWait, OpGet] (f2, h2))) c \<and>
      ready (snd (exec_fops ([OpWait, OpGet] @ [OpSet ''tok-A'']) (f2, h2))) c) \<and>
   ready (snd (exec_fops (OpClear # [OpWait, OpGet])
            (newTokenFuture, \<lparr>closed = [True], double_close = False\<rparr>))) 0 \<and>
   Get (fst (exec_fops [OpWait, OpGet]
          (Set ''tok-A'' newTokenFuture \<lparr>closed = [True], double_close = False\<rparr>))) = ''tok-A'' \<and>
   Get (fst (exec_fops [OpWait, OpGet]
          (newTokenFuture, \<lparr>closed = [True], double_close = False\<rparr>))) = []"
  using tokenFuture_one_shot [of "[OpWait, OpGet]" "''tok-A''" newTokenFuture
      "\<lparr>closed = [True], double_close = False\<rparr>" 0]
  by (simp add: ready_def exec_fops_def Wait_def Set_def Clear_def Get_def make_chan_def
      close_chan_def newTokenFuture_def)

section \<open>Properties of deriveVaultToken\<close>

lemma derive_loop_ok:
  "derive_loop h n (Inr tokens # dq) bq tr =
     (Derived (map_index tokens (taskName h)) False, dq, bq,
      tr @ [DeriveToken (alloc h) [taskName h]])"
  by (simp add: Let_def)

lemma derive_loop_server:
  "IsServerSide err \<Longrightarrow>
   derive_loop h n (Inl err # dq) bq tr =
     (Derived [] True, dq, bq,
      tr @ [DeriveToken (alloc h) [taskName h],
            Kill ''vault'' (''server error deriving vault token: '' @ err_text err) True])"
  by (simp add: Let_def)

lemma derive_loop_fatal:
  "\<not> IsServerSide err \<Longrightarrow> \<not> IsRecoverable err \<Longrightarrow>
   derive_loop h n (Inl err # dq) bq tr =
     (Derived [] True, dq, bq,
      tr @ [DeriveToken (alloc h) [taskName h],
            Kill ''vault'' (''failed to derive token: '' @ err_text err) True])"
  by (simp add: Let_def)

lemma derive_loop_retry:
  "\<not> IsServerSide err \<Longrightarrow> IsRecoverable err \<Longrightarrow>
   derive_loop h n (Inl err # dq) (TimerFired # bq) tr =
     derive_loop h (n + 1) dq bq
       (tr @ [DeriveToken (alloc h) [taskName h], After (vaultBackoff n)])"
  by (simp add: Let_def)

lemma derive_loop_cancel:
  "\<not> IsServerSide err \<Longrightarrow> IsRecoverable err \<Longrightarrow>
   derive_loop h n (Inl err # dq) (BackoffCtxDone # bq) tr =
     (Derived [] True, dq, bq,
      tr @ [DeriveToken (alloc h) [taskName h], After (vaultBackoff n)])"
  by (simp add: Let_def)

lemma derive_loop_stuck:
  "\<not> IsServerSide err \<Longrightarrow> IsRecoverable err \<Longrightarrow>
   derive_loop h n (Inl err # dq) [] tr =
     (DeriveBlocked, dq, [],
      tr @ [DeriveToken (alloc h) [taskName h], After (vaultBackoff n)])"
  by (simp add: Let_def)

declare derive_loop.simps(2) [simp del]

lemmas derive_loop_rules =
  derive_loop_ok derive_loop_server derive_loop_fatal derive_loop_retry derive_loop_cancel
  derive_loop_stuck

lemma derive_loop_trace:
  "derive_loop h n dq bq tr =
     (case derive_loop h n dq bq [] of (r, dq', bq', new) \<Rightarrow> (r, dq', bq', tr @ new))"
proof (induction dq arbitrary: n bq tr)
  case Nil
  show ?case by simp
next
  case (Cons r dq)
  show ?case
  proof (cases r)
    case (Inr tokens)
    then show ?thesis by (simp add: derive_loop_ok)
  next
    case (Inl err)
    show ?thesis
    proof (cases "\<not> IsServerSide err \<and> IsRecoverable err")
      case False
      with Inl show ?thesis
        by (cases "IsServerSide err") (simp_all add: derive_loop_server derive_loop_fatal)
    next
      case True
      show ?thesis
      proof (cases bq)
        case Nil
        with True Inl show ?thesis by (simp add: derive_loop_stuck)
      next
        case (Cons b bq')
        show ?thesis
        proof (cases b)
          case BackoffCtxDone
          with Cons True Inl show ?thesis by (simp add: derive_loop_cancel)
        next
          case TimerFired
          let ?a = "[DeriveToken (alloc h) [taskName h], After (vaultBackoff n)]"
          have "derive_loop h (n + 1) dq bq' (tr @ ?a) =
                (case derive_loop h (n + 1) dq bq' [] of
                   (r, dq', bq', new) \<Rightarrow> (r, dq', bq', (tr @ ?a) @ new))"
            by (rule Cons.IH)
          moreover have "derive_loop h (n + 1) dq bq' ?a =
                (case derive_loop h (n + 1) dq bq' [] of
                   (r, dq', bq', new) \<Rightarrow> (r, dq', bq', ?a @ new))"
            by (rule Cons.IH)
          ultimately show ?thesis using Inl True Cons TimerFired
            by (simp add: derive_loop_retry split_beta)
        qed
      qed
    qed
  qed
qed

lemma derive_loop_actions:
  "derive_loop h n dq bq [] = (r, dq', bq', new) \<Longrightarrow> list_all derive_action new"
proof (induction dq arbitrary: n bq r dq' bq' new)
  case Nil
  then show ?case by auto
next
  case (Cons x dq)
  show ?case
  proof (cases x)
    case (Inr tokens)
    with Cons.prems show ?thesis by (auto simp: derive_loop_ok)
  next
    case (Inl err)
    show ?thesis
    proof (cases "\<not> IsServerSide err \<and> IsRecoverable err")
      case False
      with Inl Cons.prems show ?thesis
        by (cases "IsServerSide err") (auto simp: derive_loop_server derive_loop_fatal)
    next
      case True
      show ?thesis
      proof (cases bq)
        case Nil
        with True Inl Cons.prems show ?thesis by (auto simp: derive_loop_stuck)
      next
        case c: (Cons b bq1)
        show ?thesis
        proof (cases b)
          case BackoffCtxDone
          with c True Inl Cons.prems show ?thesis by (auto simp: derive_loop_cancel)
        next
          case TimerFired
          let ?a = "[DeriveToken (alloc h) [taskName h], After (vaultBackoff n)]"
          obtain r1 d1 b1 n1 where e: "derive_loop h (n + 1) dq bq1 [] = (r1, d1, b1, n1)"
            by (cases "derive_loop h (n + 1) dq bq1 []") auto
          then have "list_all derive_action n1" by (rule Cons.IH)
          moreover have "new = ?a @ n1"
            using Cons.prems Inl True c TimerFired e
              derive_loop_trace [of h "n + 1" dq bq1 ?a]
            by (simp add: derive_loop_retry)
          ultimately show ?thesis by simp
        qed
      qed
    qed
  qed
qed

lemma retry_calls_Suc:
  "retry_calls h n (Suc k) =
     [DeriveToken (alloc h) [taskName h], After (vaultBackoff n)] @ retry_calls h (n + 1) k"
proof -
  have "[0..<Suc k] = 0 # map Suc [0..<k]"
    by (simp add: upt_conv_Cons map_Suc_upt del: upt_Suc)
  then show ?thesis
    by (simp add: retry_calls_def comp_def add.assoc del: upt_Suc)
qed

lemma derive_loop_retries:
  "list_all retryable errs \<Longrightarrow>
   derive_loop h n (map Inl errs @ dq) (replicate (length errs) TimerFired @ bq) tr =
     derive_loop h (n + of_nat (length errs)) dq bq (tr @ retry_calls h n (length errs))"
proof (induction errs arbitrary: n tr)
  case Nil
  show ?case by (simp add: retry_calls_def)
next
  case (Cons e errs)
  then have "derive_loop h (n + 1) (map Inl errs @ dq) (replicate (length errs) TimerFired @ bq)
                (tr @ [DeriveToken (alloc h) [taskName h], After (vaultBackoff n)]) =
             derive_loop h (n + 1 + of_nat (length errs)) dq bq
                ((tr @ [DeriveToken (alloc h) [taskName h], After (vaultBackoff n)]) @
                 retry_calls h (n + 1) (length errs))"
    by simp
  with Cons.prems show ?case
    by (simp add: retryable_def derive_loop_retry retry_calls_Suc ac_simps)
qed

lemma derive_loop_first_call:
  "derive_loop h n dq bq [] = (r, dq', bq', new) \<Longrightarrow>
     take 1 new = [DeriveToken (alloc h) [taskName h]]"
proof (cases dq)
  case Nil
  then show "derive_loop h n dq bq [] = (r, dq', bq', new) \<Longrightarrow> ?thesis" by auto
next
  case (Cons x dq1)
  assume a: "derive_loop h n dq bq [] = (r, dq', bq', new)"
  show ?thesis
  proof (cases x)
    case (Inr tokens)
    with a Cons show ?thesis by (auto simp: derive_loop_ok)
  next
    case (Inl err)
    show ?thesis
    proof (cases "retryable err")
      case False
      with a Cons Inl show ?thesis
        by (cases "IsServerSide err") (auto simp: retryable_def derive_loop_server derive_loop_fatal)
    next
      case True
      show ?thesis
      proof (cases bq)
        case Nil
        with a Cons Inl True show ?thesis by (auto simp: retryable_def derive_loop_stuck)
      next
        case c: (Cons b bq1)
        show ?thesis
        proof (cases b)
          case BackoffCtxDone
          with a Cons Inl True c show ?thesis by (auto simp: retryable_def derive_loop_cancel)
        next
          case TimerFired
          with a Cons Inl True c show ?thesis
            using derive_loop_trace [of h "n + 1" dq1 bq1
                "[DeriveToken (alloc h) [taskName h], After (vaultBackoff n)]"]
            by (auto simp: retryable_def derive_loop_retry split: prod.splits)
        qed
      qed
    qed
  qed
qed

lemma deriveVaultToken_retries:
  assumes "list_all retryable errs"
    and "derive_q w = map Inl errs @ dq"
    and "backoff_q w = replicate (length errs) TimerFired @ bq"
  shows "deriveVaultToken h w =
     (case derive_loop h (of_nat (length errs)) dq bq
             (trace w @ retry_calls h 0 (length errs)) of
        (r, dq', bq', tr) \<Rightarrow> (r, w\<lparr>derive_q := dq', backoff_q := bq', trace := tr\<rparr>))"
  using assms derive_loop_retries [of errs h 0 dq bq "trace w"]
  by (simp add: deriveVaultToken_def)

text \<open>
  C3, as the code has it.  Let a run of \<open>deriveVaultToken\<close> start with any number of
  retryable errors (neither server-side nor unrecoverable), each waited out; its \<open>i\<close>-th
  wait is \<open>vaultBackoff i\<close>, counted from the start of this run whatever happened
  before.  If the next answer is a server-side error, recoverable or not, the task is
  killed with reason \<open>server error deriving vault token: <err>\<close> and failure set, and the
  manager exits; if it is neither server-side nor recoverable, the task is killed with
  reason \<open>failed to derive token: <err>\<close> and failure set; if it is retryable, the run
  waits and, the timer firing, calls \<open>DeriveToken\<close> again without any kill; if it is a
  token map, the run returns the entry of the task.
\<close>

theorem deriveVaultToken_classification:
  assumes "list_all retryable errs"
    and "backoff_q w = replicate (length errs) TimerFired @ bq"
  shows
  "(derive_q w = map Inl errs @ Inl err # dq \<and> IsServerSide err \<longrightarrow>
      deriveVaultToken h w =
        (Derived [] True,
         w\<lparr>derive_q := dq, backoff_q := bq,
           trace := trace w @ retry_calls h 0 (length errs) @
             [DeriveToken (alloc h) [taskName h],
              Kill ''vault'' (''server error deriving vault token: '' @ err_text err) True]\<rparr>)) \<and>
   (derive_q w = map Inl errs @ Inl err # dq \<and> \<not> IsServerSide err \<and> \<not> IsRecoverable err \<longrightarrow>
      deriveVaultToken h w =
        (Derived [] True,
         w\<lparr>derive_q := dq, backoff_q := bq,
           trace := trace w @ retry_calls h 0 (length errs) @
             [DeriveToken (alloc h) [taskName h],
              Kill ''vault'' (''failed to derive token: '' @ err_text err) True]\<rparr>)) \<and>
   (derive_q w = map Inl errs @ Inl err # dq \<and> \<not> IsServerSide err \<and> IsRecoverable err \<and>
    bq = TimerFired # bq' \<longrightarrow>
      take (2 * length errs + 3) (since w (snd (deriveVaultToken h w))) =
        retry_calls h 0 (length errs) @
          [DeriveToken (alloc h) [taskName h], After (vaultBackoff (of_nat (length errs))),
           DeriveToken (alloc h) [taskName h]]) \<and>
   (derive_q w = map Inl errs @ Inr tokens # dq \<longrightarrow>
      deriveVaultToken h w =
        (Derived (map_index tokens (taskName h)) False,
         w\<lparr>derive_q := dq, backoff_q := bq,
           trace := trace w @ retry_calls h 0 (length errs) @
             [DeriveToken (alloc h) [taskName h]]\<rparr>))"
proof (intro conjI impI)
  assume "derive_q w = map Inl errs @ Inl err # dq \<and> IsServerSide err"
  then show "deriveVaultToken h w =
        (Derived [] True,
         w\<lparr>derive_q := dq, backoff_q := bq,
           trace := trace w @ retry_calls h 0 (length errs) @
             [DeriveToken (alloc h) [taskName h],
              Kill ''vault'' (''server error deriving vault token: '' @ err_text err) True]\<rparr>)"
    using deriveVaultToken_retries [OF assms(1) _ assms(2), of "Inl err # dq" h]
    by (simp add: derive_loop_server)
next
  assume "derive_q w = map Inl errs @ Inl err # dq \<and> \<not> IsServerSide err \<and> \<not> IsRecoverable err"
  then show "deriveVaultToken h w =
        (Derived [] True,
         w\<lparr>derive_q := dq, backoff_q := bq,
           trace := trace w @ retry_calls h 0 (length errs) @
             [DeriveToken (alloc h) [taskName h],
              Kill ''vault'' (''failed to derive token: '' @ err_text err) True]\<rparr>)"
    using deriveVaultToken_retries [OF assms(1) _ assms(2), of "Inl err # dq" h]
    by (simp add: derive_loop_fatal)
next
  assume a: "derive_q w = map Inl errs @ Inl err # dq \<and> \<not> IsServerSide err \<and> IsRecoverable err \<and>
    bq = TimerFired # bq'"
  let ?k = "length errs"
  let ?pre = "retry_calls h 0 ?k @
      [DeriveToken (alloc h) [taskName h], After (vaultBackoff (of_nat ?k))]"
  obtain r d1 b1 new where e: "derive_loop h (of_nat ?k + 1) dq bq' [] = (r, d1, b1, new)"
    by (cases "derive_loop h (of_nat ?k + 1) dq bq' []") auto
  have len: "length (retry_calls h 0 ?k) = 2 * ?k"
    by (simp add: retry_calls_def length_concat comp_def sum_list_triv)
  have "deriveVaultToken h w =
          (r, w\<lparr>derive_q := d1, backoff_q := b1, trace := trace w @ ?pre @ new\<rparr>)"
    using a e deriveVaultToken_retries [OF assms(1) _ assms(2), of "Inl err # dq" h]
      derive_loop_trace [of h "of_nat ?k + 1" dq bq' "trace w @ ?pre"]
    by (simp add: derive_loop_retry)
  then have "since w (snd (deriveVaultToken h w)) = ?pre @ new"
    by (simp add: since_def)
  moreover have "take 1 new = [DeriveToken (alloc h) [taskName h]]"
    using e by (rule derive_loop_first_call)
  ultimately show "take (2 * length errs + 3) (since w (snd (deriveVaultToken h w))) =
        retry_calls h 0 (length errs) @
          [DeriveToken (alloc h) [taskName h], After (vaultBackoff (of_nat (length errs))),
           DeriveToken (alloc h) [taskName h]]"
    using len by simp
next
  assume "derive_q w = map Inl errs @ Inr tokens # dq"
  then show "deriveVaultToken h w =
        (Derived (map_index tokens (taskName h)) False,
         w\<lparr>derive_q := dq, backoff_q := bq,
           trace := trace w @ retry_calls h 0 (length errs) @
             [DeriveToken (alloc h) [taskName h]]\<rparr>)"
    using deriveVaultToken_retries [OF assms(1) _ assms(2), of "Inr tokens # dq" h]
    by (simp add: derive_loop_ok)
qed

theorem deriveVaultToken_classification_witness:
  "list_all retryable [\<lparr>err_text = ''timeout'', server_side = False, recoverable = True\<rparr>] \<and>
   deriveVaultToken (test_hook VaultChangeModeNoop [])
     (new_world [Inl \<lparr>err_text = ''timeout'', server_side = False, recoverable = True\<rparr>,
                 Inl \<lparr>err_text = ''boom'', server_side = True, recoverable = True\<rparr>]
        [TimerFired] [] [] [] []) =
     (Derived [] True,
      (new_world [] [] [] [] [] [])
        \<lparr>trace := [DeriveToken ''a1'' [''t''], After 5000000000, DeriveToken ''a1'' [''t''],
                   Kill ''vault'' ''server error deriving vault token: boom'' True]\<rparr>) \<and>
   deriveVaultToken (test_hook VaultChangeModeNoop [])
     (new_world [Inl \<lparr>err_text = ''timeout'', server_side = False, recoverable = True\<rparr>,
                 Inl \<lparr>err_text = ''denied'', server_side = False, recoverable = False\<rparr>]
        [TimerFired] [] [] [] []) =
     (Derived [] True,
      (new_world [] [] [] [] [] [])
        \<lparr>trace := [DeriveToken ''a1'' [''t''], After 5000000000, DeriveToken ''a1'' [''t''],
                   Kill ''vault'' ''failed to derive token: denied'' True]\<rparr>) \<and>
   take 5 (since
     (new_world [Inl \<lparr>err_text = ''timeout'', server_side = False, recoverable = True\<rparr>,
                 Inl \<lparr>err_text = ''timeout'', server_side = False, recoverable = True\<rparr>]
        [TimerFired, TimerFired] [] [] [] [])
     (snd (deriveVaultToken (test_hook VaultChangeModeNoop [])
       (new_world [Inl \<lparr>err_text = ''timeout'', server_side = False, recoverable = True\<rparr>,
                   Inl \<lparr>err_text = ''timeout'', server_side = False, recoverable = True\<rparr>]
          [TimerFired, TimerFired] [] [] [] [])))) =
     [DeriveToken ''a1'' [''t''], After 5000000000, DeriveToken ''a1'' [''t''],
      After 20000000000, DeriveToken ''a1'' [''t'']] \<and>
   deriveVaultToken (test_hook VaultChangeModeNoop [])
     (new_world [Inl \<lparr>err_text = ''timeout'', server_side = False, recoverable = True\<rparr>,
                 Inr [(''t'', ''tok-A'')]]
        [TimerFired] [] [] [] []) =
     (Derived ''tok-A'' False,
      (new_world [] [] [] [] [] [])
        \<lparr>trace := [DeriveToken ''a1'' [''t''], After 5000000000, DeriveToken ''a1'' [''t'']]\<rparr>)"
  using
    deriveVaultToken_classification
      [of "[\<lparr>err_text = ''timeout'', server_side = False, recoverable = True\<rparr>]"
          "new_world [Inl \<lparr>err_text = ''timeout'', server_side = False, recoverable = True\<rparr>,
                 Inl \<lparr>err_text = ''boom'', server_side = True, recoverable = True\<rparr>]
             [TimerFired] [] [] [] []" "[]"
          "\<lparr>err_text = ''boom'', server_side = True, recoverable = True\<rparr>" "[]"
          "test_hook VaultChangeModeNoop []"]
    deriveVaultToken_classification
      [of "[\<lparr>err_text = ''timeout'', server_side = False, recoverable = True\<rparr>]"
          "new_world [Inl \<lparr>err_text = ''timeout'', server_side = False, recoverable = True\<rparr>,
                 Inl \<lparr>err_text = ''denied'', server_side = False, recoverable = False\<rparr>]
             [TimerFired] [] [] [] []" "[]"
          "\<lparr>err_text = ''denied'', server_side = False, recoverable = False\<rparr>" "[]"
          "test_hook VaultChangeModeNoop []"]
    deriveVaultToken_classification
      [of "[\<lparr>err_text = ''timeout'', server_side = False, recoverable = True\<rparr>]"
          "new_world [Inl \<lparr>err_text = ''timeout'', server_side = False, recoverable = True\<rparr>,
                   Inl \<lparr>err_text = ''timeout'', server_side = False, recoverable = True\<rparr>]
             [TimerFired, TimerFired] [] [] [] []" "[TimerFired]"
          "\<lparr>err_text = ''timeout'', server_side = False, recoverable = True\<rparr>" "[]"
          "test_hook VaultChangeModeNoop []" "[]"]
    deriveVaultToken_classification
      [of "[\<lparr>err_text = ''timeout'', server_side = False, recoverable = True\<rparr>]"
          "new_world [Inl \<lparr>err_text = ''timeout'', server_side = False, recoverable = True\<rparr>,
                 Inr [(''t'', ''tok-A'')]]
             [TimerFired] [] [] [] []" "[]" _ "[]"
          "test_hook VaultChangeModeNoop []" _ "[(''t'', ''tok-A'')]"]
  by (simp add: new_world_def retryable_def IsServerSide_def IsRecoverable_def test_hook_def
      retry_calls_def map_index_def vaultBackoff_def vaultBackoffBaseline_def
      vaultBackoffLimit_def second_def word_sless_alt Let_def)

text \<open>
  C3 as it was stated gives the reason of the kill for a server-side error as
  \<open>server error deriving token: <err>\<close>.  On a server-side error \<open>boom\<close> the code
  kills with another reason, and with that one never.
\<close>

theorem server_side_reason_counterexample:
  "trace (snd (deriveVaultToken (test_hook VaultChangeModeNoop [])
      (new_world [Inl \<lparr>err_text = ''boom'', server_side = True, recoverable = False\<rparr>]
         [] [] [] [] []))) =
     [DeriveToken ''a1'' [''t''],
      Kill ''vault'' ''server error deriving vault token: boom'' True] \<and>
   Kill ''vault'' ''server error deriving token: boom'' True \<notin>
     set (trace (snd (deriveVaultToken (test_hook VaultChangeModeNoop [])
       (new_world [Inl \<lparr>err_text = ''boom'', server_side = True, recoverable = False\<rparr>]
          [] [] [] [] []))))"
  by (simp add: deriveVaultToken_def derive_loop_server new_world_def IsServerSide_def
      test_hook_def)

section \<open>Properties of one pass of the loop\<close>

lemma trace_emit [simp]: "trace (emit a w) = trace w @ [a]"
  by (simp add: emit_def)

lemma emit_fields [simp]:
  "future (emit a w) = future w" "chs (emit a w) = chs w"
  "derive_q (emit a w) = derive_q w" "backoff_q (emit a w) = backoff_q w"
  "write_q (emit a w) = write_q w" "renew_q (emit a w) = renew_q w"
  "signal_q (emit a w) = signal_q w" "renewal_q (emit a w) = renewal_q w"
  by (simp_all add: emit_def)

lemma since_append [simp]: "trace w' = trace w @ new \<Longrightarrow> since w w' = new"
  by (simp add: since_def)

lemma derive_action_not_reactor: "list_all derive_action new \<Longrightarrow> \<not> list_ex reactor_action new"
proof (induction new)
  case Nil
  show ?case by simp
next
  case (Cons a new)
  then show ?case by (cases a) auto
qed

lemma derive_action_not_write: "list_all derive_action new \<Longrightarrow> filter is_WriteFile new = []"
proof (induction new)
  case Nil
  show ?case by simp
next
  case (Cons a new)
  then show ?case by (cases a) auto
qed

lemma deriveVaultToken_frame:
  assumes "deriveVaultToken h w = (r, w')"
  shows "\<exists>new. trace w' = trace w @ new \<and> list_all derive_action new"
    and "future w' = future w" and "chs w' = chs w" and "write_q w' = write_q w"
    and "renew_q w' = renew_q w" and "signal_q w' = signal_q w" and "renewal_q w' = renewal_q w"
proof -
  obtain r0 dq bq new where e: "derive_loop h 0 (derive_q w) (backoff_q w) [] = (r0, dq, bq, new)"
    by (cases "derive_loop h 0 (derive_q w) (backoff_q w) []") auto
  then have w': "w' = w\<lparr>derive_q := dq, backoff_q := bq, trace := trace w @ new\<rparr>"
    using assms derive_loop_trace [of h 0 "derive_q w" "backoff_q w" "trace w"]
    by (auto simp: deriveVaultToken_def)
  from e have "list_all derive_action new" by (rule derive_loop_actions)
  with w' show "\<exists>new. trace w' = trace w @ new \<and> list_all derive_action new" by simp
  from w' show "future w' = future w" "chs w' = chs w" "write_q w' = write_q w"
    "renew_q w' = renew_q w" "signal_q w' = signal_q w" "renewal_q w' = renewal_q w"
    by simp_all
qed

lemma writeToken_ok:
  "write_q w = None # q \<Longrightarrow>
   writeToken h t w = (Answer None, w\<lparr>write_q := q, trace := trace w @ [WriteFile (tokenPath h) t]\<rparr>)"
  by (simp add: writeToken_def pop_write_def emit_def)

lemma writeToken_err:
  "write_q w = Some e # q \<Longrightarrow>
   writeToken h t w =
     (Answer (Some (''failed to write vault token: '' @ e)),
      w\<lparr>write_q := q, trace := trace w @ [WriteFile (tokenPath h) t]\<rparr>)"
  by (simp add: writeToken_def pop_write_def emit_def)

lemma writeToken_stuck:
  "write_q w = [] \<Longrightarrow>
   writeToken h t w = (NoAnswer, w\<lparr>trace := trace w @ [WriteFile (tokenPath h) t]\<rparr>)"
  by (simp add: writeToken_def pop_write_def emit_def)

lemma writeToken_frame:
  assumes "writeToken h t w = (r, w')"
  shows "trace w' = trace w @ [WriteFile (tokenPath h) t]"
    and "future w' = future w" and "chs w' = chs w" and "renew_q w' = renew_q w"
    and "signal_q w' = signal_q w" and "renewal_q w' = renewal_q w"
    and "derive_q w' = derive_q w" and "backoff_q w' = backoff_q w"
  using assms
  by (auto simp: writeToken_def pop_write_def emit_def split: list.splits option.splits)

lemma acquire_kept: "t \<noteq> [] \<Longrightarrow> acquire h t w = Token t w"
  by (simp add: acquire_def)

lemma acquire_derived:
  "deriveVaultToken h w = (Derived t1 False, w1) \<Longrightarrow> write_q w1 = None # q \<Longrightarrow>
   acquire h [] w =
     Token t1 (w1\<lparr>write_q := q, trace := trace w1 @ [WriteFile (tokenPath h) t1]\<rparr>)"
  by (simp add: acquire_def writeToken_ok)

lemma acquire_write_failed:
  "deriveVaultToken h w = (Derived t1 False, w1) \<Longrightarrow> write_q w1 = Some e # q \<Longrightarrow>
   acquire h [] w =
     AcquireExit (w1\<lparr>write_q := q, trace := trace w1 @
        [WriteFile (tokenPath h) t1, Kill ''vault'' ''failed to write Vault token to disk'' True]\<rparr>)"
  by (simp add: acquire_def writeToken_err emit_def)

lemma derive_action_others:
  "list_all derive_action new \<Longrightarrow> \<not> list_ex is_RenewToken new \<and> \<not> list_ex is_FutureSet new"
proof (induction new)
  case Nil
  show ?case by simp
next
  case (Cons a new)
  then show ?case by (cases a) auto
qed

lemma acquire_frame:
  assumes "acquire h t w = a"
  shows "\<exists>new. trace (acquired_world a) = trace w @ new \<and> \<not> list_ex reactor_action new \<and>
           \<not> list_ex is_RenewToken new \<and> \<not> list_ex is_FutureSet new \<and>
           length (filter is_WriteFile new) \<le> 1 \<and>
           (t = [] \<and> (\<exists>t1 w1. a = Token t1 w1) \<longrightarrow> length (filter is_WriteFile new) = 1)"
    and "future (acquired_world a) = future w"
    and "renew_q (acquired_world a) = renew_q w"
    and "signal_q (acquired_world a) = signal_q w"
    and "renewal_q (acquired_world a) = renewal_q w"
proof -
  let ?P = "\<lambda>w'. (\<exists>new. trace w' = trace w @ new \<and> \<not> list_ex reactor_action new \<and>
           \<not> list_ex is_RenewToken new \<and> \<not> list_ex is_FutureSet new \<and>
           length (filter is_WriteFile new) \<le> 1 \<and>
           (t = [] \<and> (\<exists>t1 w1. a = Token t1 w1) \<longrightarrow> length (filter is_WriteFile new) = 1)) \<and>
     future w' = future w \<and> renew_q w' = renew_q w \<and> signal_q w' = signal_q w \<and>
     renewal_q w' = renewal_q w"
  have "?P (acquired_world a)"
  proof (cases "t = []")
    case False
    with assms have "a = Token t w" by (simp add: acquire_kept)
    with False show ?thesis by (simp add: acquired_world_def)
  next
    case True
    obtain r w0 where d: "deriveVaultToken h w = (r, w0)" by (cases "deriveVaultToken h w")
    from deriveVaultToken_frame [OF d] obtain nd where
      nd: "trace w0 = trace w @ nd" "list_all derive_action nd" and
      f0: "future w0 = future w" "renew_q w0 = renew_q w" "signal_q w0 = signal_q w"
          "renewal_q w0 = renewal_q w"
      by auto
    have q: "\<not> list_ex reactor_action nd" "\<not> list_ex is_RenewToken nd"
      "\<not> list_ex is_FutureSet nd" "filter is_WriteFile nd = []"
      using nd(2) derive_action_others [of nd]
      by (simp_all add: derive_action_not_reactor derive_action_not_write)
    show ?thesis
    proof (cases r)
      case DeriveBlocked
      with assms True d have "a = AcquireBlock w0" by (simp add: acquire_def)
      with nd q f0 show ?thesis by (simp add: acquired_world_def)
    next
      case (Derived t1 exit)
      show ?thesis
      proof (cases exit)
        case True
        with assms \<open>t = []\<close> d Derived have "a = AcquireExit w0" by (simp add: acquire_def)
        with nd q f0 show ?thesis by (simp add: acquired_world_def)
      next
        case False
        obtain ans w2 where wt: "writeToken h t1 w0 = (ans, w2)" by (cases "writeToken h t1 w0")
        note f2 = writeToken_frame [OF wt]
        show ?thesis
        proof (cases ans)
          case NoAnswer
          with assms \<open>t = []\<close> d Derived False wt have "a = AcquireBlock w2"
            by (simp add: acquire_def)
          with nd q f0 f2 show ?thesis by (simp add: acquired_world_def)
        next
          case (Answer x)
          show ?thesis
          proof (cases x)
            case None
            with assms \<open>t = []\<close> d Derived False wt Answer have "a = Token t1 w2"
              by (simp add: acquire_def)
            with nd q f0 f2 show ?thesis by (simp add: acquired_world_def)
          next
            case (Some e)
            with assms \<open>t = []\<close> d Derived False wt Answer
            have "a = AcquireExit (emit (Kill ''vault'' ''failed to write Vault token to disk'' True) w2)"
              by (simp add: acquire_def)
            with nd q f0 f2 show ?thesis by (simp add: acquired_world_def)
          qed
        qed
      qed
    qed
  qed
  then show "\<exists>new. trace (acquired_world a) = trace w @ new \<and> \<not> list_ex reactor_action new \<and>
           \<not> list_ex is_RenewToken new \<and> \<not> list_ex is_FutureSet new \<and>
           length (filter is_WriteFile new) \<le> 1 \<and>
           (t = [] \<and> (\<exists>t1 w1. a = Token t1 w1) \<longrightarrow> length (filter is_WriteFile new) = 1)"
    and "future (acquired_world a) = future w"
    and "renew_q (acquired_world a) = renew_q w"
    and "signal_q (acquired_world a) = signal_q w"
    and "renewal_q (acquired_world a) = renewal_q w"
    by blast+
qed

lemma react_frame:
  assumes "react h t w = s"
  shows "\<exists>new. trace (step_world s) = trace w @ new \<and> new \<noteq> [] \<and> list_all reactor_action new \<and>
           length (filter is_UpdatedVaultToken new) \<le> 1"
    and "future (step_world s) = future w"
    and "renew_q (step_world s) = renew_q w"
    and "renewal_q (step_world s) = renewal_q w"
    and "s = Continue t' u' w' \<Longrightarrow> t' = t \<and> \<not> u'"
  using assms
  by (auto simp: react_def Let_def step_world_def emit_def
      split: change_mode.splits sum.splits list.splits option.splits)

lemma reactor_action_others:
  "list_all reactor_action new \<Longrightarrow>
     filter is_WriteFile new = [] \<and> \<not> list_ex is_StopRenewToken new \<and>
     \<not> list_ex is_After new"
proof (induction new)
  case Nil
  show ?case by simp
next
  case (Cons a new)
  then show ?case by (cases a) auto
qed

lemma watch_frame:
  assumes "watch h u w = s"
  shows "\<exists>new. trace (step_world s) = trace w @ new \<and> \<not> list_ex reactor_action new \<and>
           filter is_WriteFile new = [] \<and> \<not> list_ex is_After new"
    and "future (step_world s) = future w"
    and "s = Continue t' u' w' \<Longrightarrow> t' = [] \<and> u' = (changeMode h \<noteq> VaultChangeModeNoop \<or> u)"
  using assms
  by (auto simp: watch_def step_world_def stopRenewal_def emit_def
      split: list.splits renew_select.splits if_splits)

lemma future_Set_frame:
  "trace (future_Set t w) = trace w @ [FutureSet t]"
  "is_set (future (future_Set t w))" "token (future (future_Set t w)) = t"
  "renew_q (future_Set t w) = renew_q w" "renewal_q (future_Set t w) = renewal_q w"
  "signal_q (future_Set t w) = signal_q w"
  by (simp_all add: future_Set_def Set_def emit_def)

lemma future_Clear_frame:
  "trace (future_Clear w) = trace w @ [FutureClear]"
  "\<not> is_set (future (future_Clear w))" "token (future (future_Clear w)) = []"
  "renew_q (future_Clear w) = renew_q w" "renewal_q (future_Clear w) = renewal_q w"
  "signal_q (future_Clear w) = signal_q w" "write_q (future_Clear w) = write_q w"
  "derive_q (future_Clear w) = derive_q w" "backoff_q (future_Clear w) = backoff_q w"
  by (simp_all add: future_Clear_def Clear_def emit_def)

lemma renew_start_failed:
  "renew_q w = Some e # q \<Longrightarrow>
   renew h t u w = Continue [] u (w\<lparr>trace := trace w @ [RenewToken t 30], renew_q := q\<rparr>)"
  by (simp add: renew_def emit_def)

lemma renew_stuck:
  "renew_q w = [] \<Longrightarrow> renew h t u w = Block (w\<lparr>trace := trace w @ [RenewToken t 30]\<rparr>)"
  by (simp add: renew_def emit_def)

lemma renew_started:
  "renew_q w = None # q \<Longrightarrow>
   renew h t u w =
     (let w2 = future_Set t (w\<lparr>trace := trace w @ [RenewToken t 30], renew_q := q\<rparr>)
      in if u then (case react h t w2 of
                      Continue t' u' w3 \<Rightarrow> watch h u' w3
                    | Exit w3 \<Rightarrow> Exit w3
                    | Block w3 \<Rightarrow> Block w3)
         else watch h u w2)"
  by (simp add: renew_def emit_def Let_def)

lemma renew_frame:
  assumes "renew h t u w = s"
  shows "\<exists>new. trace (step_world s) = trace w @ new \<and>
           list_ex reactor_action new = (u \<and> (\<exists>q. renew_q w = None # q)) \<and>
           filter is_WriteFile new = [] \<and> \<not> list_ex is_After new"
    and "s = Continue t' u' w' \<Longrightarrow> t' = []"
proof -
  have "(\<exists>new. trace (step_world s) = trace w @ new \<and>
           list_ex reactor_action new = (u \<and> (\<exists>q. renew_q w = None # q)) \<and>
           filter is_WriteFile new = [] \<and> \<not> list_ex is_After new) \<and>
        (s = Continue t' u' w' \<longrightarrow> t' = [])"
  proof (cases "renew_q w")
    case Nil
    with assms show ?thesis by (auto simp: renew_stuck step_world_def)
  next
    case (Cons r q)
    show ?thesis
    proof (cases r)
      case (Some e)
      with Cons assms show ?thesis by (auto simp: renew_start_failed step_world_def)
    next
      case None
      let ?w2 = "future_Set t (w\<lparr>trace := trace w @ [RenewToken t 30], renew_q := q\<rparr>)"
      have t2: "trace ?w2 = trace w @ [RenewToken t 30, FutureSet t]"
        by (simp add: future_Set_frame)
      show ?thesis
      proof (cases u)
        case False
        with None Cons assms have s: "s = watch h u ?w2" by (simp add: renew_started Let_def)
        from watch_frame(1) [OF s [symmetric]] obtain nw where
          "trace (step_world s) = trace ?w2 @ nw" "\<not> list_ex reactor_action nw"
          "filter is_WriteFile nw = []" "\<not> list_ex is_After nw" by auto
        moreover have "s = Continue t' u' w' \<longrightarrow> t' = []"
          using watch_frame(3) [OF s [symmetric]] by simp
        ultimately show ?thesis using t2 False by simp
      next
        case True
        obtain s1 where r: "react h t ?w2 = s1" by simp
        from react_frame(1) [OF r] obtain nr where
          nr: "trace (step_world s1) = trace ?w2 @ nr" "nr \<noteq> []" "list_all reactor_action nr"
          by auto
        then have ex: "list_ex reactor_action nr" by (cases nr) auto
        note o = reactor_action_others [OF nr(3)]
        show ?thesis
        proof (cases s1)
          case (Continue t1 u1 w3)
          with None Cons assms True r have s: "s = watch h u1 w3"
            by (simp add: renew_started Let_def)
          from watch_frame(1) [OF s [symmetric]] obtain nw where
            "trace (step_world s) = trace w3 @ nw" "\<not> list_ex reactor_action nw"
            "filter is_WriteFile nw = []" "\<not> list_ex is_After nw" by auto
          moreover have "s = Continue t' u' w' \<longrightarrow> t' = []"
            using watch_frame(3) [OF s [symmetric]] by simp
          moreover have "trace w3 = trace ?w2 @ nr" using nr(1) Continue by (simp add: step_world_def)
          ultimately show ?thesis using t2 True None Cons ex o by simp
        next
          case (Exit w3)
          with None Cons assms True r have s: "s = Exit w3" by (simp add: renew_started Let_def)
          with nr Exit t2 True None Cons ex o show ?thesis by (simp add: step_world_def)
        next
          case (Block w3)
          with None Cons assms True r have s: "s = Block w3" by (simp add: renew_started Let_def)
          with nr Block t2 True None Cons ex o show ?thesis by (simp add: step_world_def)
        qed
      qed
    qed
  qed
  then show "\<exists>new. trace (step_world s) = trace w @ new \<and>
           list_ex reactor_action new = (u \<and> (\<exists>q. renew_q w = None # q)) \<and>
           filter is_WriteFile new = [] \<and> \<not> list_ex is_After new"
    and "s = Continue t' u' w' \<Longrightarrow> t' = []"
    by blast+
qed

lemma loop_body_Token:
  "acquire h t (future_Clear w) = Token t1 w1 \<Longrightarrow> loop_body h t u w = renew h t1 u w1"
  by (simp add: loop_body_def)

lemma loop_body_frame:
  assumes "loop_body h t u w = s"
  shows "\<exists>new. trace (step_world s) = trace w @ new \<and>
           (list_ex reactor_action new \<longrightarrow> u) \<and>
           ((list_ex reactor_action new \<or> (\<exists>t' u' w'. s = Continue t' u' w')) \<and> t = [] \<longrightarrow>
              1 \<le> length (filter is_WriteFile new))"
    and "s = Continue t' u' w' \<Longrightarrow> t' = []"
proof -
  obtain a where a: "acquire h t (future_Clear w) = a" by simp
  from acquire_frame(1) [OF a] obtain na where
    na: "trace (acquired_world a) = trace (future_Clear w) @ na" "\<not> list_ex reactor_action na"
      "t = [] \<and> (\<exists>t1 w1. a = Token t1 w1) \<longrightarrow> length (filter is_WriteFile na) = 1"
    by auto
  have "(\<exists>new. trace (step_world s) = trace w @ new \<and>
           (list_ex reactor_action new \<longrightarrow> u) \<and>
           ((list_ex reactor_action new \<or> (\<exists>t' u' w'. s = Continue t' u' w')) \<and> t = [] \<longrightarrow>
              1 \<le> length (filter is_WriteFile new))) \<and>
        (s = Continue t' u' w' \<longrightarrow> t' = [])"
  proof (cases a)
    case (Token t1 w1)
    with a assms have s: "renew h t1 u w1 = s" by (simp add: loop_body_Token)
    from renew_frame(1) [OF s] obtain nr where
      nr: "trace (step_world s) = trace w1 @ nr"
        "list_ex reactor_action nr = (u \<and> (\<exists>q. renew_q w1 = None # q))" by auto
    have "trace (step_world s) = trace w @ (FutureClear # na @ nr)"
      using nr(1) na(1) Token by (simp add: acquired_world_def future_Clear_frame)
    moreover have "list_ex reactor_action (FutureClear # na @ nr) \<longrightarrow> u"
      using nr(2) na(2) by simp
    moreover have "t = [] \<longrightarrow> 1 \<le> length (filter is_WriteFile (FutureClear # na @ nr))"
      using na(3) Token by simp
    moreover have "s = Continue t' u' w' \<longrightarrow> t' = []"
      using renew_frame(2) [OF s] by simp
    ultimately show ?thesis by blast
  next
    case (AcquireExit w1)
    with a assms have "s = Exit w1" by (simp add: loop_body_def)
    moreover have "trace w1 = trace w @ (FutureClear # na)"
      using na(1) AcquireExit by (simp add: acquired_world_def future_Clear_frame)
    ultimately show ?thesis using na(2) by (simp add: step_world_def)
  next
    case (AcquireBlock w1)
    with a assms have "s = Block w1" by (simp add: loop_body_def)
    moreover have "trace w1 = trace w @ (FutureClear # na)"
      using na(1) AcquireBlock by (simp add: acquired_world_def future_Clear_frame)
    ultimately show ?thesis using na(2) by (simp add: step_world_def)
  qed
  then show "\<exists>new. trace (step_world s) = trace w @ new \<and>
           (list_ex reactor_action new \<longrightarrow> u) \<and>
           ((list_ex reactor_action new \<or> (\<exists>t' u' w'. s = Continue t' u' w')) \<and> t = [] \<longrightarrow>
              1 \<le> length (filter is_WriteFile new))"
    and "s = Continue t' u' w' \<Longrightarrow> t' = []"
    by blast+
qed

lemma run_loop_frame:
  "\<exists>new. trace (snd (run_loop h polls t u w)) = trace w @ new \<and>
     (list_ex reactor_action new \<longrightarrow> derivations_owed t u \<le> length (filter is_WriteFile new))"
proof (induction polls arbitrary: t u w)
  case Nil
  show ?case by simp
next
  case (Cons p polls)
  show ?case
  proof (cases p)
    case True
    then show ?thesis by (simp add: stopRenewal_def)
  next
    case False
    obtain s where s: "loop_body h t u w = s" by simp
    from loop_body_frame(1) [OF s] obtain n1 where
      n1: "trace (step_world s) = trace w @ n1" "list_ex reactor_action n1 \<longrightarrow> u"
        "(list_ex reactor_action n1 \<or> (\<exists>t' u' w'. s = Continue t' u' w')) \<and> t = [] \<longrightarrow>
              1 \<le> length (filter is_WriteFile n1)"
      by auto
    show ?thesis
    proof (cases s)
      case (Continue t' u' w')
      with s have t': "t' = []" using loop_body_frame(2) by blast
      from Cons.IH [of t' u' w'] obtain n2 where
        n2: "trace (snd (run_loop h polls t' u' w')) = trace w' @ n2"
          "list_ex reactor_action n2 \<longrightarrow> derivations_owed t' u' \<le> length (filter is_WriteFile n2)"
        by auto
      have tr: "trace (snd (run_loop h (p # polls) t u w)) = trace w @ (n1 @ n2)"
        using False s Continue n1(1) n2(1) by (simp add: step_world_def)
      have "derivations_owed t u \<le> length (filter is_WriteFile (n1 @ n2))"
        if "list_ex reactor_action (n1 @ n2)"
      proof (cases "list_ex reactor_action n1")
        case True
        with n1 show ?thesis by (auto simp: derivations_owed_def)
      next
        case False
        with that n2(2) have "derivations_owed t' u' \<le> length (filter is_WriteFile n2)" by simp
        moreover have "t = [] \<longrightarrow> 1 \<le> length (filter is_WriteFile n1)"
          using n1(3) Continue by simp
        ultimately show ?thesis using t' by (auto simp: derivations_owed_def)
      qed
      with tr show ?thesis by blast
    next
      case (Exit w')
      then have "trace (snd (run_loop h (p # polls) t u w)) = trace w @ n1"
        using False s n1(1) by (simp add: step_world_def)
      moreover have "list_ex reactor_action n1 \<longrightarrow>
          derivations_owed t u \<le> length (filter is_WriteFile n1)"
        using n1 by (auto simp: derivations_owed_def)
      ultimately show ?thesis by blast
    next
      case (Block w')
      then have "trace (snd (run_loop h (p # polls) t u w)) = trace w @ n1"
        using False s n1(1) by (simp add: step_world_def)
      moreover have "list_ex reactor_action n1 \<longrightarrow>
          derivations_owed t u \<le> length (filter is_WriteFile n1)"
        using n1 by (auto simp: derivations_owed_def)
      ultimately show ?thesis by blast
    qed
  qed
qed






lemma derive_action_not_updater:
  "list_all derive_action new \<Longrightarrow> \<not> list_ex is_UpdatedVaultToken new"
proof (induction new)
  case Nil
  show ?case by simp
next
  case (Cons a new)
  then show ?case by (cases a) auto
qed


section \<open>Properties of run\<close>

text \<open>The equations that evaluate a run on a concrete script.\<close>

lemmas run_eval =
  run_def loop_body_def acquire_def deriveVaultToken_def derive_loop_rules writeToken_def
  pop_write_def emit_def renew_def react_def watch_def stopRenewal_def future_Clear_def
  future_Set_def Set_def Clear_def Get_def new_world_def newTokenFuture_def no_chans_def
  test_hook_def map_index_def IsServerSide_def IsRecoverable_def Let_def since_def
  step_world_def





text \<open>
  C7, as the code has it.  If the token just derived cannot be written to \<open>tokenPath\<close>,
  the pass kills the task through the lifecycle with reason
  \<open>failed to write Vault token to disk\<close> and failure set, and \<open>run\<close> returns; since
  the pass began, no renewal was started and the future was not set, and it is unset at
  the end.
\<close>

theorem write_failure_kills_task:
  assumes "deriveVaultToken h (future_Clear w) = (Derived t1 False, w1)"
    and "write_q w1 = Some e # q"
  shows "run_loop h (False # polls) [] u w =
           (Exited,
            w1\<lparr>write_q := q, trace := trace w1 @
              [WriteFile (tokenPath h) t1,
               Kill ''vault'' ''failed to write Vault token to disk'' True]\<rparr>) \<and>
         \<not> list_ex is_RenewToken (since w (snd (run_loop h (False # polls) [] u w))) \<and>
         \<not> list_ex is_FutureSet (since w (snd (run_loop h (False # polls) [] u w))) \<and>
         \<not> is_set (future (snd (run_loop h (False # polls) [] u w)))"
proof -
  let ?w' = "w1\<lparr>write_q := q, trace := trace w1 @
              [WriteFile (tokenPath h) t1,
               Kill ''vault'' ''failed to write Vault token to disk'' True]\<rparr>"
  have a: "acquire h [] (future_Clear w) = AcquireExit ?w'"
    using assms by (rule acquire_write_failed)
  then have r: "run_loop h (False # polls) [] u w = (Exited, ?w')"
    by (simp add: loop_body_def)
  from acquire_frame(1,2) [OF a] obtain na where
    "trace ?w' = trace w @ FutureClear # na" "\<not> list_ex is_RenewToken na"
    "\<not> list_ex is_FutureSet na" "future ?w' = future (future_Clear w)"
    by (auto simp: acquired_world_def future_Clear_frame)
  then have "since w ?w' = FutureClear # na" "\<not> list_ex is_RenewToken (FutureClear # na)"
    "\<not> list_ex is_FutureSet (FutureClear # na)" "\<not> is_set (future ?w')"
    by (simp_all add: future_Clear_frame del: since_append) (simp add: since_def)
  with r show ?thesis by simp
qed

theorem write_failure_kills_task_witness:
  "deriveVaultToken (test_hook VaultChangeModeRestart [])
     (future_Clear (new_world [Inr [(''t'', ''tok-A'')]] [] [Some ''disk full''] [None] [] [])) =
     (Derived ''tok-A'' False,
      (new_world [] [] [Some ''disk full''] [None] [] [])
        \<lparr>trace := [FutureClear, DeriveToken ''a1'' [''t'']]\<rparr>) \<and>
   run_loop (test_hook VaultChangeModeRestart []) [False, False] [] False
     (new_world [Inr [(''t'', ''tok-A'')]] [] [Some ''disk full''] [None] [] []) =
     (Exited,
      (new_world [] [] [] [None] [] [])
        \<lparr>trace := [FutureClear, DeriveToken ''a1'' [''t''],
                   WriteFile ''/secrets/vault_token'' ''tok-A'',
                   Kill ''vault'' ''failed to write Vault token to disk'' True]\<rparr>)"
  using write_failure_kills_task
    [of "test_hook VaultChangeModeRestart []"
        "new_world [Inr [(''t'', ''tok-A'')]] [] [Some ''disk full''] [None] [] []"
        "''tok-A''"
        "(new_world [] [] [Some ''disk full''] [None] [] [])
           \<lparr>trace := [FutureClear, DeriveToken ''a1'' [''t'']]\<rparr>"
        "''disk full''" "[]" "[False]" False]
  by (simp add: run_eval)

text \<open>
  C7 as it was stated gives the reason of the kill as \<open>failed to write token to disk\<close>;
  the code never kills with that reason.
\<close>

theorem write_failure_reason_counterexample:
  "trace (snd (run (test_hook VaultChangeModeRestart []) [False] []
      (new_world [Inr [(''t'', ''tok-A'')]] [] [Some ''disk full''] [None] [] []))) =
     [FutureClear, DeriveToken ''a1'' [''t''], WriteFile ''/secrets/vault_token'' ''tok-A'',
      Kill ''vault'' ''failed to write Vault token to disk'' True] \<and>
   Kill ''vault'' ''failed to write token to disk'' True \<notin>
     set (trace (snd (run (test_hook VaultChangeModeRestart []) [False] []
       (new_world [Inr [(''t'', ''tok-A'')]] [] [Some ''disk full''] [None] [] []))))"
  by (simp add: run_eval)

text \<open>
  C10.  Let a rotation be pending, the change mode be signal, and a pass have a token
  whose renewal has just started.  If the change signal does not parse, or parses but
  cannot be delivered, then after the start of the renewal the pass sets the future,
  (sends the signal,) kills the task, and \<open>run\<close> returns: \<open>StopRenewToken\<close> is not
  called, although the renewal of the token is running.
\<close>

theorem fatal_reaction_leaves_renewal_running:
  assumes "acquire h t (future_Clear w) = Token t1 w1"
    and "renew_q w1 = None # q"
    and "changeMode h = VaultChangeModeSignal"
  shows "(signals_Parse h (changeSignal h) = Inl e \<longrightarrow>
            fst (run_loop h (False # polls) t True w) = Exited \<and>
            since w1 (snd (run_loop h (False # polls) t True w)) =
              [RenewToken t1 30, FutureSet t1,
               Kill ''vault'' (''failed to parse signal: '' @ e) True]) \<and>
         (signals_Parse h (changeSignal h) = Inr sg \<and> signal_q w1 = Some e # sq \<longrightarrow>
            fst (run_loop h (False # polls) t True w) = Exited \<and>
            since w1 (snd (run_loop h (False # polls) t True w)) =
              [RenewToken t1 30, FutureSet t1,
               Signal ''vault'' ''new Vault token acquired'' sg,
               Kill ''vault'' (''failed to send signal: '' @ e) True])"
proof -
  let ?w2 = "future_Set t1 (w1\<lparr>trace := trace w1 @ [RenewToken t1 30], renew_q := q\<rparr>)"
  have body: "loop_body h t True w =
      (case react h t1 ?w2 of Continue t' u' w3 \<Rightarrow> watch h u' w3
       | Exit w3 \<Rightarrow> Exit w3 | Block w3 \<Rightarrow> Block w3)"
    using assms(1,2) by (simp add: loop_body_Token renew_started Let_def)
  have t2: "trace ?w2 = trace w1 @ [RenewToken t1 30, FutureSet t1]"
    by (simp add: future_Set_frame)
  have sq2: "signal_q ?w2 = signal_q w1" by (simp add: future_Set_frame)
  show ?thesis
  proof (intro conjI impI)
    assume p: "signals_Parse h (changeSignal h) = Inl e"
    then have "react h t1 ?w2 =
        Exit (emit (Kill ''vault'' (''failed to parse signal: '' @ e) True) ?w2)"
      using assms(3) by (simp add: react_def)
    with body have r: "run_loop h (False # polls) t True w =
        (Exited, emit (Kill ''vault'' (''failed to parse signal: '' @ e) True) ?w2)"
      by simp
    then show "fst (run_loop h (False # polls) t True w) = Exited" by simp
    from r t2 show "since w1 (snd (run_loop h (False # polls) t True w)) =
              [RenewToken t1 30, FutureSet t1,
               Kill ''vault'' (''failed to parse signal: '' @ e) True]"
      by simp
  next
    assume p: "signals_Parse h (changeSignal h) = Inr sg \<and> signal_q w1 = Some e # sq"
    let ?w3 = "emit (Kill ''vault'' (''failed to send signal: '' @ e) True)
        ((emit (Signal ''vault'' ''new Vault token acquired'' sg) ?w2)\<lparr>signal_q := sq\<rparr>)"
    from p have "react h t1 ?w2 = Exit ?w3"
      using assms(3) sq2 by (simp add: react_def Let_def)
    with body have r: "run_loop h (False # polls) t True w = (Exited, ?w3)"
      by simp
    then show "fst (run_loop h (False # polls) t True w) = Exited" by simp
    have "trace ?w3 = trace w1 @ [RenewToken t1 30, FutureSet t1,
               Signal ''vault'' ''new Vault token acquired'' sg,
               Kill ''vault'' (''failed to send signal: '' @ e) True]"
      using t2 by (simp add: emit_def)
    with r show "since w1 (snd (run_loop h (False # polls) t True w)) =
              [RenewToken t1 30, FutureSet t1,
               Signal ''vault'' ''new Vault token acquired'' sg,
               Kill ''vault'' (''failed to send signal: '' @ e) True]"
      by simp
  qed
qed

theorem fatal_reaction_leaves_renewal_running_witness:
  "acquire (test_hook VaultChangeModeSignal ''SIGBOGUS'') []
     (future_Clear (new_world [Inr [(''t'', ''tok-2'')]] [] [None] [None] [] [])) =
     Token ''tok-2''
       ((new_world [] [] [] [None] [] [])
          \<lparr>trace := [FutureClear, DeriveToken ''a1'' [''t''],
                     WriteFile ''/secrets/vault_token'' ''tok-2'']\<rparr>) \<and>
   run_loop (test_hook VaultChangeModeSignal ''SIGBOGUS'') [False, False] [] True
     (new_world [Inr [(''t'', ''tok-2'')]] [] [None] [None] [] []) =
     (Exited,
      (new_world [] [] [] [] [] [])
        \<lparr>future := \<lparr>waiting = [], token = ''tok-2'', is_set = True\<rparr>,
          trace := [FutureClear, DeriveToken ''a1'' [''t''],
                    WriteFile ''/secrets/vault_token'' ''tok-2'', RenewToken ''tok-2'' 30,
                    FutureSet ''tok-2'',
                    Kill ''vault'' ''failed to parse signal: invalid signal: SIGBOGUS'' True]\<rparr>) \<and>
   acquire (test_hook VaultChangeModeSignal ''SIGHUP'') []
     (future_Clear (new_world [Inr [(''t'', ''tok-2'')]] [] [None] [None] [Some ''no such process''] [])) =
     Token ''tok-2''
       ((new_world [] [] [] [None] [Some ''no such process''] [])
          \<lparr>trace := [FutureClear, DeriveToken ''a1'' [''t''],
                     WriteFile ''/secrets/vault_token'' ''tok-2'']\<rparr>) \<and>
   run_loop (test_hook VaultChangeModeSignal ''SIGHUP'') [False, False] [] True
     (new_world [Inr [(''t'', ''tok-2'')]] [] [None] [None] [Some ''no such process''] []) =
     (Exited,
      (new_world [] [] [] [] [] [])
        \<lparr>future := \<lparr>waiting = [], token = ''tok-2'', is_set = True\<rparr>,
          trace := [FutureClear, DeriveToken ''a1'' [''t''],
                    WriteFile ''/secrets/vault_token'' ''tok-2'', RenewToken ''tok-2'' 30,
                    FutureSet ''tok-2'', Signal ''vault'' ''new Vault token acquired'' 1,
                    Kill ''vault'' ''failed to send signal: no such process'' True]\<rparr>)"
  using
    fatal_reaction_leaves_renewal_running
      [where h = "test_hook VaultChangeModeSignal ''SIGBOGUS''" and t = "[]"
         and w = "new_world [Inr [(''t'', ''tok-2'')]] [] [None] [None] [] []"
         and ?t1.0 = "''tok-2''"
         and ?w1.0 = "(new_world [] [] [] [None] [] [])
             \<lparr>trace := [FutureClear, DeriveToken ''a1'' [''t''],
                        WriteFile ''/secrets/vault_token'' ''tok-2'']\<rparr>"
         and q = "[]" and e = "''invalid signal: SIGBOGUS''" and polls = "[False]"]
    fatal_reaction_leaves_renewal_running
      [where h = "test_hook VaultChangeModeSignal ''SIGHUP''" and t = "[]"
         and w = "new_world [Inr [(''t'', ''tok-2'')]] [] [None] [None]
                    [Some ''no such process''] []"
         and ?t1.0 = "''tok-2''"
         and ?w1.0 = "(new_world [] [] [] [None] [Some ''no such process''] [])
             \<lparr>trace := [FutureClear, DeriveToken ''a1'' [''t''],
                        WriteFile ''/secrets/vault_token'' ''tok-2'']\<rparr>"
         and q = "[]" and e = "''no such process''" and polls = "[False]" and sg = 1
         and sq = "[]"]
  by (simp add: run_eval)

lemma derive_loop_first_retry:
  assumes "retryable err" and "derive_loop h n (Inl err # dq) bq [] = (r, dq', bq', new)"
  shows "take 2 new = [DeriveToken (alloc h) [taskName h], After (vaultBackoff n)]"
proof (cases bq)
  case Nil
  with assms show ?thesis by (auto simp: retryable_def derive_loop_stuck)
next
  case (Cons b bq1)
  show ?thesis
  proof (cases b)
    case BackoffCtxDone
    with assms Cons show ?thesis by (auto simp: retryable_def derive_loop_cancel)
  next
    case TimerFired
    with assms Cons show ?thesis
      using derive_loop_trace [of h "n + 1" dq bq1
          "[DeriveToken (alloc h) [taskName h], After (vaultBackoff n)]"]
      by (auto simp: retryable_def derive_loop_retry split: prod.splits)
  qed
qed

lemma acquire_after_derive:
  assumes "deriveVaultToken h w = (r, w0)"
  shows "\<exists>m. trace (acquired_world (acquire h [] w)) = trace w0 @ m"
proof (cases r)
  case DeriveBlocked
  with assms show ?thesis by (simp add: acquire_def acquired_world_def)
next
  case (Derived t1 exit)
  show ?thesis
  proof (cases exit)
    case True
    with assms Derived show ?thesis by (simp add: acquire_def acquired_world_def)
  next
    case False
    obtain ans w2 where wt: "writeToken h t1 w0 = (ans, w2)" by (cases "writeToken h t1 w0")
    note f = writeToken_frame(1) [OF wt]
    show ?thesis
    proof (cases ans)
      case NoAnswer
      with assms Derived False wt f show ?thesis by (simp add: acquire_def acquired_world_def)
    next
      case (Answer x)
      with assms Derived False wt f show ?thesis
        by (cases x) (simp_all add: acquire_def acquired_world_def)
    qed
  qed
qed

lemma loop_body_after_acquire:
  "\<exists>m. trace (step_world (loop_body h t u w)) =
         trace (acquired_world (acquire h t (future_Clear w))) @ m"
proof (cases "acquire h t (future_Clear w)")
  case (Token t1 w1)
  obtain s where s: "renew h t1 u w1 = s" by simp
  from renew_frame(1) [OF s] obtain nr where "trace (step_world s) = trace w1 @ nr" by auto
  with Token s show ?thesis by (simp add: loop_body_def acquired_world_def)
next
  case (AcquireExit w1)
  then show ?thesis by (simp add: loop_body_def acquired_world_def step_world_def)
next
  case (AcquireBlock w1)
  then show ?thesis by (simp add: loop_body_def acquired_world_def step_world_def)
qed

lemma loop_body_starts_deriving:
  assumes "derive_loop h 0 (derive_q w) (backoff_q w) [] = (r, dq, bq, new)"
  shows "\<exists>m. trace (step_world (loop_body h [] u w)) = trace w @ FutureClear # new @ m"
proof -
  have d: "deriveVaultToken h (future_Clear w) =
      (r, (future_Clear w)\<lparr>derive_q := dq, backoff_q := bq,
            trace := trace w @ FutureClear # new\<rparr>)"
    using assms derive_loop_trace [of h 0 "derive_q w" "backoff_q w" "trace w @ [FutureClear]"]
    by (simp add: deriveVaultToken_def future_Clear_frame)
  from acquire_after_derive [OF d] obtain m1 where
    "trace (acquired_world (acquire h [] (future_Clear w))) = trace w @ FutureClear # new @ m1"
    by auto
  moreover from loop_body_after_acquire [of h "[]" u w] obtain m2 where
    "trace (step_world (loop_body h [] u w)) =
       trace (acquired_world (acquire h [] (future_Clear w))) @ m2" by auto
  ultimately show ?thesis by simp
qed

lemma run_loop_after_pass:
  "\<exists>m. trace (snd (run_loop h (False # polls) t u w)) =
         trace (step_world (loop_body h t u w)) @ m"
proof (cases "loop_body h t u w")
  case (Continue t' u' w')
  from run_loop_frame [of h polls t' u' w'] obtain n where
    "trace (snd (run_loop h polls t' u' w')) = trace w' @ n" by auto
  with Continue show ?thesis by (simp add: step_world_def)
next
  case (Exit w')
  then show ?thesis by (simp add: step_world_def)
next
  case (Block w')
  then show ?thesis by (simp add: step_world_def)
qed

text \<open>
  C5.  Let the start of the renewal of the token at hand fail.  The pass ends there with
  the token dropped, and unless the context is done the run goes on at once: the calls
  it makes after the failed \<open>RenewToken\<close> begin with the clearing of the future and a
  \<open>DeriveToken\<close>, with no wait in between; and if that derivation fails with a
  retryable error, the wait that follows it is the first of the schedule, five seconds.
\<close>

theorem renewal_start_failure_rederives_at_once:
  assumes "acquire h t (future_Clear w) = Token t1 w1"
    and "renew_q w1 = Some e # q"
  shows "loop_body h t u w =
           Continue [] u (w1\<lparr>trace := trace w1 @ [RenewToken t1 30], renew_q := q\<rparr>) \<and>
         take 3 (since w1 (snd (run_loop h (False # False # polls) t u w))) =
           [RenewToken t1 30, FutureClear, DeriveToken (alloc h) [taskName h]] \<and>
         (derive_q w1 = Inl err # dq \<and> retryable err \<longrightarrow>
            take 4 (since w1 (snd (run_loop h (False # False # polls) t u w))) =
              [RenewToken t1 30, FutureClear, DeriveToken (alloc h) [taskName h],
               After (5 * second)])"
proof -
  let ?w2 = "w1\<lparr>trace := trace w1 @ [RenewToken t1 30], renew_q := q\<rparr>"
  have b: "loop_body h t u w = Continue [] u ?w2"
    using assms by (simp add: loop_body_Token renew_start_failed)
  then have r: "run_loop h (False # False # polls) t u w = run_loop h (False # polls) [] u ?w2"
    by simp
  obtain r' dq' bq' new where
    dl: "derive_loop h 0 (derive_q ?w2) (backoff_q ?w2) [] = (r', dq', bq', new)"
    by (cases "derive_loop h 0 (derive_q ?w2) (backoff_q ?w2) []") auto
  from loop_body_starts_deriving [OF dl] obtain m where
    "trace (step_world (loop_body h [] u ?w2)) = trace ?w2 @ FutureClear # new @ m" by auto
  moreover from run_loop_after_pass [of h polls "[]" u ?w2] obtain m' where
    "trace (snd (run_loop h (False # polls) [] u ?w2)) =
       trace (step_world (loop_body h [] u ?w2)) @ m'" by auto
  ultimately have "trace (snd (run_loop h (False # False # polls) t u w)) =
      trace w1 @ RenewToken t1 30 # FutureClear # new @ m @ m'"
    using r by simp
  then have s: "since w1 (snd (run_loop h (False # False # polls) t u w)) =
      RenewToken t1 30 # FutureClear # new @ m @ m'"
    by (rule since_append)
  have n1: "take 1 new = [DeriveToken (alloc h) [taskName h]]"
    using dl by (rule derive_loop_first_call)
  then have t3: "take 3 (since w1 (snd (run_loop h (False # False # polls) t u w))) =
           [RenewToken t1 30, FutureClear, DeriveToken (alloc h) [taskName h]]"
    using s by (cases new) simp_all
  have "take 4 (since w1 (snd (run_loop h (False # False # polls) t u w))) =
              [RenewToken t1 30, FutureClear, DeriveToken (alloc h) [taskName h],
               After (5 * second)]"
    if "derive_q w1 = Inl err # dq \<and> retryable err"
  proof -
    from that dl have "derive_loop h 0 (Inl err # dq) (backoff_q ?w2) [] = (r', dq', bq', new)"
      by simp
    with that have "take 2 new = [DeriveToken (alloc h) [taskName h], After (vaultBackoff 0)]"
      using derive_loop_first_retry by blast
    then obtain rest where "new = DeriveToken (alloc h) [taskName h] # After (vaultBackoff 0) # rest"
      by (cases new; cases "tl new") auto
    with s show ?thesis by (simp add: vaultBackoff_first)
  qed
  with b t3 show ?thesis by blast
qed

theorem renewal_start_failure_rederives_at_once_witness:
  "acquire (test_hook VaultChangeModeRestart []) []
     (future_Clear (new_world
        [Inr [(''t'', ''tok-1'')], Inl \<lparr>err_text = ''timeout'', server_side = False, recoverable = True\<rparr>]
        [] [None] [Some ''permission denied''] [] [])) =
     Token ''tok-1''
       ((new_world [Inl \<lparr>err_text = ''timeout'', server_side = False, recoverable = True\<rparr>]
           [] [] [Some ''permission denied''] [] [])
          \<lparr>trace := [FutureClear, DeriveToken ''a1'' [''t''],
                     WriteFile ''/secrets/vault_token'' ''tok-1'']\<rparr>) \<and>
   retryable \<lparr>err_text = ''timeout'', server_side = False, recoverable = True\<rparr> \<and>
   take 4 (since
     ((new_world [Inl \<lparr>err_text = ''timeout'', server_side = False, recoverable = True\<rparr>]
           [] [] [Some ''permission denied''] [] [])
          \<lparr>trace := [FutureClear, DeriveToken ''a1'' [''t''],
                     WriteFile ''/secrets/vault_token'' ''tok-1'']\<rparr>)
     (snd (run_loop (test_hook VaultChangeModeRestart []) [False, False, False] [] False
        (new_world
           [Inr [(''t'', ''tok-1'')],
            Inl \<lparr>err_text = ''timeout'', server_side = False, recoverable = True\<rparr>]
           [] [None] [Some ''permission denied''] [] [])))) =
     [RenewToken ''tok-1'' 30, FutureClear, DeriveToken ''a1'' [''t''], After 5000000000] \<and>
   trace (snd (run_loop (test_hook VaultChangeModeRestart []) [False, False, False] [] False
        (new_world
           [Inr [(''t'', ''tok-1'')],
            Inl \<lparr>err_text = ''timeout'', server_side = False, recoverable = True\<rparr>]
           [] [None] [Some ''permission denied''] [] []))) =
     [FutureClear, DeriveToken ''a1'' [''t''], WriteFile ''/secrets/vault_token'' ''tok-1'',
      RenewToken ''tok-1'' 30, FutureClear, DeriveToken ''a1'' [''t''], After 5000000000]"
  using renewal_start_failure_rederives_at_once
    [where h = "test_hook VaultChangeModeRestart []" and t = "[]" and u = False
       and w = "new_world
        [Inr [(''t'', ''tok-1'')], Inl \<lparr>err_text = ''timeout'', server_side = False, recoverable = True\<rparr>]
        [] [None] [Some ''permission denied''] [] []"
       and ?t1.0 = "''tok-1''"
       and ?w1.0 = "(new_world [Inl \<lparr>err_text = ''timeout'', server_side = False, recoverable = True\<rparr>]
           [] [] [Some ''permission denied''] [] [])
          \<lparr>trace := [FutureClear, DeriveToken ''a1'' [''t''],
                     WriteFile ''/secrets/vault_token'' ''tok-1'']\<rparr>"
       and e = "''permission denied''" and q = "[]"
       and polls = "[False]"
       and err = "\<lparr>err_text = ''timeout'', server_side = False, recoverable = True\<rparr>"
       and dq = "[]"]
  by (simp add: run_eval retryable_def second_def)




text \<open>
  C6.  \<open>DeriveToken\<close> succeeds with a map that has no entry for the task: the hook takes
  the empty string as the token, writes it, has its renewal started and sets the future
  with it.  The future is then set and \<open>Get\<close> returns the empty string; a waiter that
  called \<open>Wait\<close> before finds its handle ready and reads the empty string.
\<close>

theorem missing_map_entry_sets_empty_token:
  "run (test_hook VaultChangeModeNoop []) [False] []
     (new_world [Inr [(''other'', ''tok-X'')]] [] [None] [None] [] []) =
     (Pending,
      (new_world [] [] [] [] [] [])
        \<lparr>future := \<lparr>waiting = [], token = [], is_set = True\<rparr>,
          trace := [FutureClear, DeriveToken ''a1'' [''t''],
                    WriteFile ''/secrets/vault_token'' [], RenewToken [] 30, FutureSet []]\<rparr>) \<and>
   is_set (future (snd (run (test_hook VaultChangeModeNoop []) [False] []
     (new_world [Inr [(''other'', ''tok-X'')]] [] [None] [None] [] [])))) \<and>
   Get (future (snd (run (test_hook VaultChangeModeNoop []) [False] []
     (new_world [Inr [(''other'', ''tok-X'')]] [] [None] [None] [] [])))) = [] \<and>
   (case Wait newTokenFuture no_chans of
      (c, f, h) \<Rightarrow>
        (case run (test_hook VaultChangeModeNoop []) [False] []
                ((new_world [Inr [(''other'', ''tok-X'')]] [] [None] [None] [] [])
                   \<lparr>future := f, chs := h\<rparr>) of
           (r, w) \<Rightarrow> ready (chs w) c \<and> Get (future w) = []))"
  by (simp add: run_eval Wait_def make_chan_def close_chan_def ready_def)

section \<open>Properties of the script check\<close>

lemma classify_meets_test_table: "list_all (row_passes stdout) TestConsulScript_Exec_Codes"
  by (simp add: TestConsulScript_Exec_Codes_def row_passes_def classify_def)

text \<open>
  C9.  The status reported for one execution of a script check: an error of the
  executor gives critical, with the text of the error as output; without an error,
  exit code 0 gives passing, exit code 1 warning and any exit code from 2 on critical,
  with the standard output as output.
\<close>

theorem script_check_status:
  "(err = Some e \<longrightarrow> classify stdout code err = (e, HealthCritical)) \<and>
   (err = None \<and> code = 0 \<longrightarrow> classify stdout code err = (stdout, HealthPassing)) \<and>
   (err = None \<and> code = 1 \<longrightarrow> classify stdout code err = (stdout, HealthWarning)) \<and>
   (err = None \<and> 2 \<le> code \<longrightarrow> classify stdout code err = (stdout, HealthCritical))"
  by (simp add: classify_def)

theorem script_check_status_witness:
  "classify ''out'' 0 (Some ''test error'') = (''test error'', HealthCritical) \<and>
   classify ''out'' 0 None = (''out'', HealthPassing) \<and>
   classify ''out'' 1 None = (''out'', HealthWarning) \<and>
   (2::nat) \<le> 9000 \<and> classify ''out'' 9000 None = (''out'', HealthCritical)"
  using script_check_status [of "Some ''test error''" "''test error''" "''out''" 0]
    script_check_status [of None _ "''out''" 0]
    script_check_status [of None _ "''out''" 1]
    script_check_status [of None _ "''out''" 9000]
  by simp

end
